theory Spec2Isabelle
  imports Complex_Main "HOL-Library.Sublist" "HOL-Library.AList" "HOL-Library.Monad_Syntax"
begin

section \<open>Python values used by the fort.10 readers\<close>

text \<open>
  The development embeds the two fort.10 readers of the repository,
  \<^verbatim>\<open>Test1/Ti_hot/density_block.py\<close> and \<^verbatim>\<open>Test1/Ti_hot/density_plot.py\<close>.
  A Python \<^verbatim>\<open>str\<close> is a \<^typ>\<open>string\<close>; the text is taken to be ASCII (a
  character outside ASCII is its UTF-8 bytes, which none of the tests below treats as a
  letter, a digit or white space). Every exception the code can raise is a value of
  \<open>error\<close>, and a function that can raise returns \<open>error + 'a\<close>.
\<close>

text \<open>
  \<^verbatim>\<open>ValueError\<close> carries what raised it: \<open>BadNumber\<close> is \<^verbatim>\<open>int()\<close> or \<^verbatim>\<open>float()\<close>
  refusing a token, \<open>NoBlockData\<close> is "No block-ascii data found", \<open>Mismatch\<close> is
  "Names/indices mismatch", \<open>Malformed\<close> is one of the two "Malformed ..." errors of
  density_plot.py, \<open>Inhomogeneous\<close> is \<^verbatim>\<open>np.array\<close> refusing a ragged sequence, \<open>EmptySequence\<close> is
  \<^verbatim>\<open>argmin\<close> of an empty array.
\<close>

datatype value_error =
  BadNumber | NoBlockData | Mismatch | Malformed | Inhomogeneous | EmptySequence

datatype error = EOFError | ValueError value_error | IndexError | SystemExit

subsection \<open>String operations\<close>

text \<open>\<^verbatim>\<open>str.lower()\<close> on ASCII: the 26 capital letters map to the small ones.\<close>

definition lower_char :: "char \<Rightarrow> char" where
  "lower_char c =
     (case map_of (zip ''ABCDEFGHIJKLMNOPQRSTUVWXYZ'' ''abcdefghijklmnopqrstuvwxyz'') c of
        Some d \<Rightarrow> d
      | None \<Rightarrow> c)"

definition lower :: "string \<Rightarrow> string" where
  "lower s = map lower_char s"

fun starts_with :: "string \<Rightarrow> string \<Rightarrow> bool" where
  "starts_with s [] = True"
| "starts_with [] (p # ps) = False"
| "starts_with (c # cs) (p # ps) = (c = p \<and> starts_with cs ps)"

text \<open>\<open>py_in sub s\<close> is Python's \<^verbatim>\<open>sub in s\<close> on strings.\<close>

fun py_in :: "string \<Rightarrow> string \<Rightarrow> bool" where
  "py_in sub [] = (sub = [])"
| "py_in sub (c # cs) = (starts_with (c # cs) sub \<or> py_in sub cs)"

text \<open>
  White space as \<^verbatim>\<open>str.strip\<close>, \<^verbatim>\<open>str.split\<close> and the pattern \<^verbatim>\<open>\s\<close> see it in ASCII:
  tab, line feed, vertical tab, form feed, carriage return, the four separators
  1C to 1F, and the space.
\<close>

definition is_space :: "char \<Rightarrow> bool" where
  "is_space c \<longleftrightarrow>
     c \<in> set [CHR 0x09, CHR 0x0A, CHR 0x0B, CHR 0x0C, CHR 0x0D,
              CHR 0x1C, CHR 0x1D, CHR 0x1E, CHR 0x1F, CHR '' '']"

definition is_digit :: "char \<Rightarrow> bool" where
  "is_digit c \<longleftrightarrow> c \<in> set ''0123456789''"

definition py_strip :: "string \<Rightarrow> string" where
  "py_strip s = rev (dropWhile is_space (rev (dropWhile is_space s)))"

text \<open>\<^verbatim>\<open>s.split()\<close>: the maximal runs of characters that are not white space.\<close>

fun split_from :: "string \<Rightarrow> string \<Rightarrow> string list" where
  "split_from tok [] = (if tok = [] then [] else [rev tok])"
| "split_from tok (c # cs) =
     (if is_space c then (if tok = [] then split_from [] cs else rev tok # split_from [] cs)
      else split_from (c # tok) cs)"

definition py_split :: "string \<Rightarrow> string list" where
  "py_split s = split_from [] s"

text \<open>
  The lines of a text file as iteration and \<^verbatim>\<open>readline\<close> give them, from the text of
  the file as text mode delivers it (line ends already translated): each line keeps its
  line feed, the last one may lack it, and no line is empty. An open file is the list of
  the lines not yet read; \<^verbatim>\<open>readline\<close> returning the empty string (end of file) is the
  empty list, and \<^verbatim>\<open>tell\<close>/\<^verbatim>\<open>seek\<close> save and restore that list.
\<close>

fun lines_from :: "string \<Rightarrow> string \<Rightarrow> string list" where
  "lines_from cur [] = (if cur = [] then [] else [rev cur])"
| "lines_from cur (c # cs) =
     (if c = CHR 0x0A then rev (c # cur) # lines_from [] cs else lines_from (c # cur) cs)"

definition lines_of :: "string \<Rightarrow> string list" where
  "lines_of content = lines_from [] content"

subsection \<open>Indexing and slicing\<close>

text \<open>
  \<open>py_index xs i\<close> is \<^verbatim>\<open>xs[i]\<close> and \<open>py_slice xs i j\<close> is \<^verbatim>\<open>xs[i:j]\<close>, for any integers:
  a negative index counts from the end, an index out of range raises, a slice never does.
\<close>

definition py_index :: "'a list \<Rightarrow> int \<Rightarrow> error + 'a" where
  "py_index xs i =
     (let n = int (length xs); k = (if i < 0 then i + n else i)
      in if 0 \<le> k \<and> k < n then Inr (xs ! nat k) else Inl IndexError)"

definition slice_bound :: "int \<Rightarrow> int \<Rightarrow> nat" where
  "slice_bound n i = nat (if i < 0 then max (i + n) 0 else min i n)"

definition py_slice :: "'a list \<Rightarrow> int \<Rightarrow> int \<Rightarrow> 'a list" where
  "py_slice xs i j =
     (let n = int (length xs); a = slice_bound n i; b = slice_bound n j
      in take (b - a) (drop a xs))"

subsection \<open>The built-in number readers\<close>

text \<open>
  \<^verbatim>\<open>int(tok)\<close> and \<^verbatim>\<open>float(tok)\<close> are parameters of the readers: \<open>pint\<close> of type
  \<^typ>\<open>string \<Rightarrow> int option\<close> and \<open>pfloat\<close> of type \<open>string \<Rightarrow> 'f option\<close>, where
  \<open>None\<close> is the \<^verbatim>\<open>ValueError\<close> of the built-in and \<open>'f\<close> is the type of floats.
  Every theorem below holds for whatever the built-ins accept. The two sample readers
  that follow instantiate the parameters on concrete files: \<open>sample_int\<close> reads an
  optional sign and decimal digits, \<open>sample_float\<close> reads an optional sign, digits, an
  optional fraction and an optional decimal exponent, as the number they denote.
\<close>

definition digit_val :: "char \<Rightarrow> nat option" where
  "digit_val c = map_of (zip ''0123456789'' [0, 1, 2, 3, 4, 5, 6, 7, 8, 9]) c"

fun digits_val :: "nat \<Rightarrow> string \<Rightarrow> nat option" where
  "digits_val a [] = Some a"
| "digits_val a (c # cs) =
     (case digit_val c of None \<Rightarrow> None | Some d \<Rightarrow> digits_val (10 * a + d) cs)"

definition unsigned_val :: "string \<Rightarrow> nat option" where
  "unsigned_val s = (if s = [] then None else digits_val 0 s)"

definition sample_int :: "string \<Rightarrow> int option" where
  "sample_int s =
     (case s of
        [] \<Rightarrow> None
      | c # cs \<Rightarrow>
          if c = CHR ''-'' then map_option (\<lambda>n. - int n) (unsigned_val cs)
          else if c = CHR ''+'' then map_option int (unsigned_val cs)
          else map_option int (unsigned_val s))"

definition sample_mantissa :: "string \<Rightarrow> (nat \<times> nat \<times> string) option" where
  "sample_mantissa s =
     (let ip = takeWhile is_digit s; s1 = dropWhile is_digit s;
          fr = (case s1 of [] \<Rightarrow> [] | c # cs \<Rightarrow> if c = CHR ''.'' then takeWhile is_digit cs else []);
          s2 = (case s1 of [] \<Rightarrow> [] | c # cs \<Rightarrow> if c = CHR ''.'' then dropWhile is_digit cs else s1)
      in case unsigned_val (ip @ fr) of
           None \<Rightarrow> None
         | Some m \<Rightarrow> Some (m, length fr, s2))"

definition sample_exponent :: "string \<Rightarrow> int option" where
  "sample_exponent s =
     (case s of
        [] \<Rightarrow> Some 0
      | c # cs \<Rightarrow> if c = CHR ''e'' \<or> c = CHR ''E'' then sample_int cs else None)"

definition sample_unsigned_float :: "string \<Rightarrow> real option" where
  "sample_unsigned_float s =
     (case sample_mantissa s of
        None \<Rightarrow> None
      | Some (m, k, rest) \<Rightarrow>
          (case sample_exponent rest of
             None \<Rightarrow> None
           | Some e \<Rightarrow>
               Some (if int k \<le> e then real m * 10 ^ nat (e - int k)
                     else real m / 10 ^ nat (int k - e))))"

definition sample_float :: "string \<Rightarrow> real option" where
  "sample_float s =
     (case s of
        [] \<Rightarrow> None
      | c # cs \<Rightarrow>
          if c = CHR ''-'' then map_option uminus (sample_unsigned_float cs)
          else if c = CHR ''+'' then sample_unsigned_float cs
          else sample_unsigned_float s)"

section \<open>The frame decoder\<close>

text \<open>
  \<^verbatim>\<open>[float(t) for t in line.strip().split()]\<close>: the values of one line, or the
  \<^verbatim>\<open>ValueError\<close> of the first token that is no number.
\<close>

definition line_values :: "(string \<Rightarrow> 'f option) \<Rightarrow> string \<Rightarrow> error + 'f list" where
  "line_values pfloat line =
     (case those (map pfloat (py_split (py_strip line))) of
        None \<Rightarrow> Inl (ValueError BadNumber)
      | Some vs \<Rightarrow> Inr vs)"

text \<open>
  \<^verbatim>\<open>_read_values(fp, nvals)\<close>, the same loop in both files: lines are read while fewer
  than \<^verbatim>\<open>nvals\<close> values are held, and \<^verbatim>\<open>vals[:nvals]\<close> is returned with the file
  advanced past every line read.
\<close>

fun read_values_loop ::
  "(string \<Rightarrow> 'f option) \<Rightarrow> int \<Rightarrow> 'f list \<Rightarrow> string list \<Rightarrow> error + ('f list \<times> string list)" where
  "read_values_loop pfloat nvals vals [] =
     (if int (length vals) < nvals then Inl EOFError
      else Inr (py_slice vals 0 nvals, []))"
| "read_values_loop pfloat nvals vals (line # fp) =
     (if int (length vals) < nvals then
        (case line_values pfloat line of
           Inl e \<Rightarrow> Inl e
         | Inr vs \<Rightarrow> read_values_loop pfloat nvals (vals @ vs) fp)
      else Inr (py_slice vals 0 nvals, line # fp))"

definition read_values ::
  "(string \<Rightarrow> 'f option) \<Rightarrow> string list \<Rightarrow> int \<Rightarrow> error + ('f list \<times> string list)" where
  "read_values pfloat fp nvals = read_values_loop pfloat nvals [] fp"

section \<open>Utilities of density_block.py\<close>

text \<open>
  \<^verbatim>\<open>unit_factor_to_um(xunit)\<close>: the factor is a float literal (\<^verbatim>\<open>1e4\<close>, \<^verbatim>\<open>1e6\<close>,
  \<^verbatim>\<open>1.0\<close>), each of them an exact number, read here as a \<^typ>\<open>real\<close>.
  \<^verbatim>\<open>(xunit or "")\<close> is the identity on a string. The micro sign of the source is the two
  bytes C2 B5.
\<close>

definition micro_m :: string where
  "micro_m = [CHR 0xC2, CHR 0xB5, CHR ''m'']"

definition unit_factor_to_um :: "string \<Rightarrow> error + real" where
  "unit_factor_to_um xunit0 =
     (let xunit = lower xunit0 in
      if xunit \<in> set [''cm''] then Inr 10000
      else if xunit \<in> set [''m'', ''meter'', ''meters''] then Inr 1000000
      else if xunit \<in> set [''um'', micro_m, ''micron'', ''microns''] then Inr 1
      else Inl SystemExit)"

section \<open>Format detection\<close>

definition is_block_ascii_head :: "string \<Rightarrow> bool" where
  "is_block_ascii_head sample =
     ((py_in ''step='' (lower sample) \<and> py_in ''time='' (lower sample))
      \<or> py_in ''ascii_ouput'' (lower sample))"

section \<open>The block reader of density_block.py\<close>

subsection \<open>The two patterns\<close>

text \<open>
  \<^verbatim>\<open>BLOCK_START_RE\<close> is
  \<^verbatim>\<open>\bstep\s*=\s*(\d+)\s+time\s*=\s*([Ee0-9\+\-\.]+)\<close>, ignoring case, and
  \<^verbatim>\<open>HEADER_RE\<close> is \<^verbatim>\<open>\s*i\s+x\s+v\s+rho\s+te\s+ti\s+depo\<close>, ignoring case. In both, every
  repetition is followed by an item that cannot start with a character of the repeated
  class (white space is followed by a letter, a digit, a sign or \<^verbatim>\<open>=\<close>; the digits by
  white space) or by nothing, so the greedy match that takes each run whole is the only
  match at a position, and \<^verbatim>\<open>search\<close> returns the match at the first position that has
  one. A piece of a pattern is a function from the text still to be matched to the text
  left after the piece, \<open>None\<close> when the piece does not match.
\<close>

definition is_word :: "char \<Rightarrow> bool" where
  "is_word c \<longleftrightarrow>
     c \<in> set ''abcdefghijklmnopqrstuvwxyzABCDEFGHIJKLMNOPQRSTUVWXYZ0123456789_''"

definition is_time_char :: "char \<Rightarrow> bool" where
  "is_time_char c \<longleftrightarrow> c \<in> set ''Ee0123456789+-.''"

text \<open>A literal, given in lower case, matched ignoring case.\<close>

fun lit_ci :: "string \<Rightarrow> string \<Rightarrow> string option" where
  "lit_ci [] s = Some s"
| "lit_ci (p # ps) [] = None"
| "lit_ci (p # ps) (c # cs) = (if lower_char c = p then lit_ci ps cs else None)"

text \<open>\<^verbatim>\<open>\s*\<close>, \<^verbatim>\<open>\s+\<close> and a captured \<^verbatim>\<open>[...]+\<close>.\<close>

definition spaces0 :: "string \<Rightarrow> string" where
  "spaces0 s = dropWhile is_space s"

definition spaces1 :: "string \<Rightarrow> string option" where
  "spaces1 s =
     (case s of [] \<Rightarrow> None | c # cs \<Rightarrow> if is_space c then Some (dropWhile is_space cs) else None)"

definition run1 :: "(char \<Rightarrow> bool) \<Rightarrow> string \<Rightarrow> (string \<times> string) option" where
  "run1 P s = (if takeWhile P s = [] then None else Some (takeWhile P s, dropWhile P s))"

text \<open>The block-start pattern from \<^verbatim>\<open>step\<close> on, giving the two groups.\<close>

definition block_start_at :: "string \<Rightarrow> (string \<times> string) option" where
  "block_start_at s =
     do {
       s1 \<leftarrow> lit_ci ''step'' s;
       s2 \<leftarrow> lit_ci ''='' (spaces0 s1);
       (g1, s3) \<leftarrow> run1 is_digit (spaces0 s2);
       s4 \<leftarrow> spaces1 s3;
       s5 \<leftarrow> lit_ci ''time'' s4;
       s6 \<leftarrow> lit_ci ''='' (spaces0 s5);
       (g2, s7) \<leftarrow> run1 is_time_char (spaces0 s6);
       Some (g1, g2)
     }"

text \<open>
  The search tries each position in turn; \<^verbatim>\<open>\b\<close> before the word character \<^verbatim>\<open>s\<close> holds
  at the start of the line and after a character that is no word character.
\<close>

fun block_start_from :: "bool \<Rightarrow> string \<Rightarrow> (string \<times> string) option" where
  "block_start_from after_word [] = None"
| "block_start_from after_word (c # cs) =
     (case (if after_word then None else block_start_at (c # cs)) of
        Some g \<Rightarrow> Some g
      | None \<Rightarrow> block_start_from (is_word c) cs)"

definition BLOCK_START_RE_search :: "string \<Rightarrow> (string \<times> string) option" where
  "BLOCK_START_RE_search raw = block_start_from False raw"

text \<open>
  The column-label pattern from \<^verbatim>\<open>i\<close> on; its leading \<^verbatim>\<open>\s*\<close> may match nothing, so the
  search succeeds exactly when the rest matches at some position.
\<close>

definition header_at :: "string \<Rightarrow> bool" where
  "header_at s \<longleftrightarrow>
     do {
       s1 \<leftarrow> lit_ci ''i'' s; s2 \<leftarrow> spaces1 s1;
       s3 \<leftarrow> lit_ci ''x'' s2; s4 \<leftarrow> spaces1 s3;
       s5 \<leftarrow> lit_ci ''v'' s4; s6 \<leftarrow> spaces1 s5;
       s7 \<leftarrow> lit_ci ''rho'' s6; s8 \<leftarrow> spaces1 s7;
       s9 \<leftarrow> lit_ci ''te'' s8; s10 \<leftarrow> spaces1 s9;
       s11 \<leftarrow> lit_ci ''ti'' s10; s12 \<leftarrow> spaces1 s11;
       lit_ci ''depo'' s12
     } \<noteq> None"

fun HEADER_RE_search :: "string \<Rightarrow> bool" where
  "HEADER_RE_search [] = False"
| "HEADER_RE_search (c # cs) = (header_at (c # cs) \<or> HEADER_RE_search cs)"

subsection \<open>parse_block_ascii\<close>

text \<open>
  The block in progress is the dictionary \<^verbatim>\<open>cur\<close> with the keys \<^verbatim>\<open>step\<close>, \<^verbatim>\<open>time_s\<close>,
  \<^verbatim>\<open>rows\<close>; a flushed block has \<^verbatim>\<open>data\<close> (the array of the rows) in place of \<^verbatim>\<open>rows\<close>.
\<close>

record 'f cur_block =
  cur_step :: int
  cur_time_s :: 'f
  cur_rows :: "'f list list"

record 'f block =
  step :: int
  time_s :: 'f
  data :: "'f list list"

text \<open>
  \<^verbatim>\<open>if cur and cur.get("rows"): ... blocks.append(cur)\<close>, written once before a new block
  is opened and once after the loop.
\<close>

definition flush :: "'f block list \<Rightarrow> 'f cur_block option \<Rightarrow> 'f block list" where
  "flush blocks cur =
     (case cur of
        None \<Rightarrow> blocks
      | Some c \<Rightarrow>
          if cur_rows c \<noteq> [] then
            blocks @ [\<lparr>step = cur_step c, time_s = cur_time_s c, data = cur_rows c\<rparr>]
          else blocks)"

text \<open>
  One turn of the loop over the lines. The test of the source on \<^verbatim>\<open>parts[0]\<close> only
  guards a \<^verbatim>\<open>pass\<close> and is left out.
\<close>

definition block_line ::
  "(string \<Rightarrow> int option) \<Rightarrow> (string \<Rightarrow> 'f option) \<Rightarrow>
   'f block list \<times> 'f cur_block option \<Rightarrow> string \<Rightarrow>
   error + ('f block list \<times> 'f cur_block option)" where
  "block_line pint pfloat st raw =
     (case st of (blocks, cur) \<Rightarrow>
        (case BLOCK_START_RE_search raw of
           Some (g1, g2) \<Rightarrow>
             (case pint g1 of
                None \<Rightarrow> Inl (ValueError BadNumber)
              | Some k \<Rightarrow>
                  (case pfloat g2 of
                     None \<Rightarrow> Inl (ValueError BadNumber)
                   | Some t \<Rightarrow>
                       Inr (flush blocks cur,
                            Some \<lparr>cur_step = k, cur_time_s = t, cur_rows = []\<rparr>)))
         | None \<Rightarrow>
             (case cur of
                None \<Rightarrow> Inr (blocks, cur)
              | Some c \<Rightarrow>
                  if HEADER_RE_search raw then Inr (blocks, cur)
                  else
                    let parts = py_split (py_strip raw) in
                    if length parts = 7 then
                      (case those (map pfloat parts) of
                         Some row \<Rightarrow> Inr (blocks, Some (c\<lparr>cur_rows := cur_rows c @ [row]\<rparr>))
                       | None \<Rightarrow> Inr (blocks, cur))
                    else Inr (blocks, cur))))"

fun block_lines ::
  "(string \<Rightarrow> int option) \<Rightarrow> (string \<Rightarrow> 'f option) \<Rightarrow>
   'f block list \<times> 'f cur_block option \<Rightarrow> string list \<Rightarrow>
   error + ('f block list \<times> 'f cur_block option)" where
  "block_lines pint pfloat st [] = Inr st"
| "block_lines pint pfloat st (raw # rest) =
     (case block_line pint pfloat st raw of
        Inl e \<Rightarrow> Inl e
      | Inr st' \<Rightarrow> block_lines pint pfloat st' rest)"

definition parse_block_ascii ::
  "(string \<Rightarrow> int option) \<Rightarrow> (string \<Rightarrow> 'f option) \<Rightarrow> string \<Rightarrow> error + 'f block list" where
  "parse_block_ascii pint pfloat stream =
     (case block_lines pint pfloat ([], None) (lines_of stream) of
        Inl e \<Rightarrow> Inl e
      | Inr (blocks, cur) \<Rightarrow>
          let blocks' = flush blocks cur in
          if blocks' = [] then Inl (ValueError NoBlockData) else Inr blocks')"

subsection \<open>The rows of a block, as the specification words them\<close>

text \<open>
  A line inside a block gives a row when it is no column-label line and splits into
  exactly seven tokens that are all numbers; every other line gives none.
\<close>

definition row_of :: "(string \<Rightarrow> 'f option) \<Rightarrow> string \<Rightarrow> 'f list option" where
  "row_of pfloat line =
     (if HEADER_RE_search line then None
      else if length (py_split (py_strip line)) = 7
        then those (map pfloat (py_split (py_strip line)))
      else None)"

definition rows_of :: "(string \<Rightarrow> 'f option) \<Rightarrow> string list \<Rightarrow> 'f list list" where
  "rows_of pfloat body = List.map_filter (row_of pfloat) body"

text \<open>
  A stream seen as the specification describes it: some lines before the first marker,
  then sections, each a marker line with its step and time followed by the lines up to
  the next marker. A section gives one block, with the rows of its lines as data, unless
  it has no row; then it gives none.
\<close>

type_synonym 'f block_section = "string \<times> int \<times> 'f \<times> string list"

definition section_lines :: "'f block_section \<Rightarrow> string list" where
  "section_lines s = (case s of (marker, k, t, body) \<Rightarrow> marker # body)"

definition is_section ::
  "(string \<Rightarrow> int option) \<Rightarrow> (string \<Rightarrow> 'f option) \<Rightarrow> 'f block_section \<Rightarrow> bool" where
  "is_section pint pfloat s =
     (case s of (marker, k, t, body) \<Rightarrow>
        (case BLOCK_START_RE_search marker of
           None \<Rightarrow> False
         | Some (g1, g2) \<Rightarrow> pint g1 = Some k \<and> pfloat g2 = Some t)
        \<and> list_all (\<lambda>l. BLOCK_START_RE_search l = None) body)"

definition section_blocks :: "(string \<Rightarrow> 'f option) \<Rightarrow> 'f block_section \<Rightarrow> 'f block list" where
  "section_blocks pfloat s =
     (case s of (marker, k, t, body) \<Rightarrow>
        if rows_of pfloat body \<noteq> [] then
          [\<lparr>step = k, time_s = t, data = rows_of pfloat body\<rparr>]
        else [])"

section \<open>Frame selection\<close>

text \<open>
  \<^verbatim>\<open>np.clip(a, lo, hi)\<close> is the minimum of \<^verbatim>\<open>hi\<close> and the maximum of \<^verbatim>\<open>a\<close> and \<^verbatim>\<open>lo\<close>.
  \<^verbatim>\<open>argmin\<close> gives the index of the first occurrence of the least element and raises
  \<^verbatim>\<open>ValueError\<close> on an empty array. Floats are a linearly ordered type \<open>'f\<close> (no NaN);
  their arithmetic is not interpreted: \<open>to_seconds\<close> stands for \<^verbatim>\<open>float(time_ps) * 1e-12\<close>
  and \<open>absdiff t target\<close> for \<^verbatim>\<open>np.abs(t - target)\<close>, each as the machine computes it.
\<close>

definition np_clip :: "int \<Rightarrow> int \<Rightarrow> int \<Rightarrow> int" where
  "np_clip a lo hi = min (max a lo) hi"

fun first_min :: "'f::linorder list \<Rightarrow> nat" where
  "first_min [] = 0"
| "first_min [x] = 0"
| "first_min (x # y # ys) =
     (let r = first_min (y # ys) in if (y # ys) ! r < x then Suc r else 0)"

definition argmin :: "'f::linorder list \<Rightarrow> error + nat" where
  "argmin xs = (if xs = [] then Inl (ValueError EmptySequence) else Inr (first_min xs))"

definition pick_block ::
  "('f \<Rightarrow> 'f) \<Rightarrow> ('f \<Rightarrow> 'f \<Rightarrow> 'f::linorder) \<Rightarrow> 'f block list \<Rightarrow> int option \<Rightarrow> 'f option \<Rightarrow>
   error + ('f block \<times> int)" where
  "pick_block to_seconds absdiff blocks frame time_ps =
     (case frame of
        Some fr \<Rightarrow>
          (let i = np_clip fr 0 (int (length blocks) - 1) in
           case py_index blocks i of Inl e \<Rightarrow> Inl e | Inr b \<Rightarrow> Inr (b, i))
      | None \<Rightarrow>
          (case time_ps of
             Some tp \<Rightarrow>
               (let target = to_seconds tp;
                    times = map time_s blocks in
                case argmin (map (\<lambda>t. absdiff t target) times) of
                  Inl e \<Rightarrow> Inl e
                | Inr i \<Rightarrow>
                    (case py_index blocks (int i) of Inl e \<Rightarrow> Inl e | Inr b \<Rightarrow> Inr (b, int i)))
           | None \<Rightarrow>
               (case py_index blocks (- 1) of
                  Inl e \<Rightarrow> Inl e
                | Inr b \<Rightarrow> Inr (b, int (length blocks) - 1))))"

text \<open>
  The same choice as the two \<^verbatim>\<open>main\<close> functions make it for the classic format, from the
  times \<^verbatim>\<open>t\<close> and the frame count \<^verbatim>\<open>Nt\<close>.
\<close>

definition main_frame_index ::
  "('f \<Rightarrow> 'f) \<Rightarrow> ('f \<Rightarrow> 'f \<Rightarrow> 'f::linorder) \<Rightarrow> 'f list \<Rightarrow> nat \<Rightarrow> int option \<Rightarrow> 'f option \<Rightarrow>
   error + int" where
  "main_frame_index to_seconds absdiff t Nt frame time_ps =
     (case frame of
        Some fr \<Rightarrow> Inr (np_clip fr 0 (int Nt - 1))
      | None \<Rightarrow>
          (case time_ps of
             Some tp \<Rightarrow>
               (let target_s = to_seconds tp in
                case argmin (map (\<lambda>x. absdiff x target_s) t) of
                  Inl e \<Rightarrow> Inl e
                | Inr i \<Rightarrow> Inr (int i))
           | None \<Rightarrow> Inr (int Nt - 1)))"

section \<open>The classic reader\<close>

subsection \<open>Section headers\<close>

text \<open>
  \<^verbatim>\<open>_read_exact_names(fp, nfields)\<close>, the same in both files. A line is cut into slices
  of eight characters, \<^verbatim>\<open>line[i:i+8]\<close> for \<^verbatim>\<open>i\<close> in
  \<^verbatim>\<open>range(0, len(line.rstrip("\n")), 8)\<close>; each slice is stripped and the empty ones are
  dropped.
\<close>

definition rstrip_nl :: "string \<Rightarrow> string" where
  "rstrip_nl s = rev (dropWhile (\<lambda>c. c = CHR 0x0A) (rev s))"

definition name_chunks :: "string \<Rightarrow> string list" where
  "name_chunks line =
     map (\<lambda>k. take 8 (drop (8 * k) line)) [0..<(length (rstrip_nl line) + 7) div 8]"

definition line_names :: "string \<Rightarrow> string list" where
  "line_names line = filter (\<lambda>c. c \<noteq> []) (map py_strip (name_chunks line))"

fun read_exact_names_loop ::
  "int \<Rightarrow> string list \<Rightarrow> string list \<Rightarrow> error + (string list \<times> string list)" where
  "read_exact_names_loop nfields names [] =
     (if int (length names) < nfields then Inl EOFError
      else Inr (py_slice names 0 nfields, []))"
| "read_exact_names_loop nfields names (line # fp) =
     (if int (length names) < nfields then
        read_exact_names_loop nfields (names @ line_names line) fp
      else Inr (py_slice names 0 nfields, line # fp))"

definition read_exact_names ::
  "string list \<Rightarrow> int \<Rightarrow> error + (string list \<times> string list)" where
  "read_exact_names fp nfields = read_exact_names_loop nfields [] fp"

text \<open>
  \<^verbatim>\<open>_read_exact_ints(fp, nfields)\<close>. The two files read the integers of a line
  differently: density_block.py replaces every comma by a space before splitting,
  density_plot.py strips each token, removes its trailing commas and skips it when
  nothing is left. The loop around the line is the same.
\<close>

definition line_ints_block :: "(string \<Rightarrow> int option) \<Rightarrow> string \<Rightarrow> error + int list" where
  "line_ints_block pint line =
     (case those (map pint
             (py_split (map (\<lambda>c. if c = CHR '','' then CHR '' '' else c) (py_strip line)))) of
        None \<Rightarrow> Inl (ValueError BadNumber)
      | Some vs \<Rightarrow> Inr vs)"

definition rstrip_commas :: "string \<Rightarrow> string" where
  "rstrip_commas s = rev (dropWhile (\<lambda>c. c = CHR '','') (rev s))"

definition line_ints_plot :: "(string \<Rightarrow> int option) \<Rightarrow> string \<Rightarrow> error + int list" where
  "line_ints_plot pint line =
     (case those (map pint
             (filter (\<lambda>tok. tok \<noteq> [])
                (map (\<lambda>tok. rstrip_commas (py_strip tok)) (py_split (py_strip line))))) of
        None \<Rightarrow> Inl (ValueError BadNumber)
      | Some vs \<Rightarrow> Inr vs)"

fun read_exact_ints_loop ::
  "(string \<Rightarrow> error + int list) \<Rightarrow> int \<Rightarrow> int list \<Rightarrow> string list \<Rightarrow>
   error + (int list \<times> string list)" where
  "read_exact_ints_loop line_ints nfields vals [] =
     (if int (length vals) < nfields then Inl EOFError
      else Inr (py_slice vals 0 nfields, []))"
| "read_exact_ints_loop line_ints nfields vals (line # fp) =
     (if int (length vals) < nfields then
        (case line_ints line of
           Inl e \<Rightarrow> Inl e
         | Inr vs \<Rightarrow> read_exact_ints_loop line_ints nfields (vals @ vs) fp)
      else Inr (py_slice vals 0 nfields, line # fp))"

definition read_exact_ints_block ::
  "(string \<Rightarrow> int option) \<Rightarrow> string list \<Rightarrow> int \<Rightarrow> error + (int list \<times> string list)" where
  "read_exact_ints_block pint fp nfields =
     read_exact_ints_loop (line_ints_block pint) nfields [] fp"

definition read_exact_ints_plot ::
  "(string \<Rightarrow> int option) \<Rightarrow> string list \<Rightarrow> int \<Rightarrow> error + (int list \<times> string list)" where
  "read_exact_ints_plot pint fp nfields =
     read_exact_ints_loop (line_ints_plot pint) nfields [] fp"

text \<open>
  The items of a section are pairs of a name and a length, \<open>0\<close> for a scalar. The walk
  over the names and lengths is a \<^verbatim>\<open>while\<close> loop on the index \<open>i\<close>, which a negative
  length moves backwards: the loop need not end, so it is a partial function and \<open>None\<close>
  is the run that never returns. In density_block.py the walk stops at the first run
  that does not fit and reports it with the flag \<^verbatim>\<open>ok\<close>; in density_plot.py it raises.
\<close>

type_synonym item = "string \<times> int"

partial_function (option) walk_block ::
  "string list \<Rightarrow> int list \<Rightarrow> int \<Rightarrow> int \<Rightarrow> item list \<Rightarrow> (error + item list \<times> bool) option" where
  "walk_block names lens n_tokens i acc =
     (if i < n_tokens then
        (case py_index names i of
           Inl e \<Rightarrow> Some (Inl e)
         | Inr name \<Rightarrow>
             (case py_index lens i of
                Inl e \<Rightarrow> Some (Inl e)
              | Inr L \<Rightarrow>
                  if L = 0 then walk_block names lens n_tokens (i + 1) (acc @ [(name, 0)])
                  else if i + L \<le> n_tokens
                       \<and> list_all (\<lambda>n. n = name) (py_slice names i (i + L))
                       \<and> list_all (\<lambda>v. v = L) (py_slice lens i (i + L))
                    then walk_block names lens n_tokens (i + L) (acc @ [(name, L)])
                  else Some (Inr (acc, False))))
      else Some (Inr (acc, True)))"

declare walk_block.simps [code]

partial_function (option) walk_plot ::
  "string list \<Rightarrow> int list \<Rightarrow> int \<Rightarrow> int \<Rightarrow> item list \<Rightarrow> (error + item list) option" where
  "walk_plot names_repeated lens_repeated n_elems i acc =
     (if i < n_elems then
        (case py_index names_repeated i of
           Inl e \<Rightarrow> Some (Inl e)
         | Inr name \<Rightarrow>
             (case py_index lens_repeated i of
                Inl e \<Rightarrow> Some (Inl e)
              | Inr L \<Rightarrow>
                  if L = 0 then
                    walk_plot names_repeated lens_repeated n_elems (i + 1) (acc @ [(name, 0)])
                  else if i + L > n_elems then Some (Inl (ValueError Malformed))
                  else if list_ex (\<lambda>n. n \<noteq> name) (py_slice names_repeated i (i + L))
                       \<or> list_ex (\<lambda>v. v \<noteq> L) (py_slice lens_repeated i (i + L))
                    then Some (Inl (ValueError Malformed))
                  else walk_plot names_repeated lens_repeated n_elems (i + L) (acc @ [(name, L)])))
      else Some (Inr acc))"

declare walk_plot.simps [code]

text \<open>
  The items of a header from its names and lengths: density_block.py falls back to one
  item for every pair, \<^verbatim>\<open>zip(names, lens)\<close>, when the walk reports a run that does not
  fit.
\<close>

definition header_items_block ::
  "string list \<Rightarrow> int list \<Rightarrow> int \<Rightarrow> (error + item list) option" where
  "header_items_block names lens n_tokens =
     (case walk_block names lens n_tokens 0 [] of
        None \<Rightarrow> None
      | Some (Inl e) \<Rightarrow> Some (Inl e)
      | Some (Inr (its, ok)) \<Rightarrow> Some (Inr (if ok then its else zip names lens)))"

definition header_items_plot ::
  "string list \<Rightarrow> int list \<Rightarrow> int \<Rightarrow> (error + item list) option" where
  "header_items_plot names_repeated lens_repeated n_elems =
     walk_plot names_repeated lens_repeated n_elems 0 []"

record section_meta =
  items :: "item list"
  total_values :: int

definition sum_counts :: "item list \<Rightarrow> int" where
  "sum_counts its = sum_list (map (\<lambda>(name, L). if L = 0 then 1 else L) its)"

text \<open>
  \<^verbatim>\<open>_read_section_header(fp)\<close>: the count is the first token of the first line
  (\<^verbatim>\<open>IndexError\<close> on a blank line), then the names, the lengths and the items. The two
  files differ in the reader of the lengths and in the walk.
\<close>

definition read_section_header ::
  "(string list \<Rightarrow> int \<Rightarrow> error + (int list \<times> string list)) \<Rightarrow>
   (string list \<Rightarrow> int list \<Rightarrow> int \<Rightarrow> (error + item list) option) \<Rightarrow>
   (string \<Rightarrow> int option) \<Rightarrow> string list \<Rightarrow> (error + section_meta \<times> string list) option" where
  "read_section_header read_ints header_items pint fp =
     (case fp of
        [] \<Rightarrow> Some (Inl EOFError)
      | line # fp1 \<Rightarrow>
          (case py_split (py_strip line) of
             [] \<Rightarrow> Some (Inl IndexError)
           | tok # _ \<Rightarrow>
               (case pint tok of
                  None \<Rightarrow> Some (Inl (ValueError BadNumber))
                | Some n \<Rightarrow>
                    (case read_exact_names fp1 n of
                       Inl e \<Rightarrow> Some (Inl e)
                     | Inr (names, fp2) \<Rightarrow>
                         (case read_ints fp2 n of
                            Inl e \<Rightarrow> Some (Inl e)
                          | Inr (lens, fp3) \<Rightarrow>
                              if length names \<noteq> length lens then Some (Inl (ValueError Mismatch))
                              else
                                (case header_items names lens n of
                                   None \<Rightarrow> None
                                 | Some (Inl e) \<Rightarrow> Some (Inl e)
                                 | Some (Inr its) \<Rightarrow>
                                     Some (Inr (\<lparr>items = its, total_values = sum_counts its\<rparr>,
                                                fp3))))))))"

definition read_section_header_block ::
  "(string \<Rightarrow> int option) \<Rightarrow> string list \<Rightarrow> (error + section_meta \<times> string list) option" where
  "read_section_header_block pint fp =
     read_section_header (read_exact_ints_block pint) header_items_block pint fp"

definition read_section_header_plot ::
  "(string \<Rightarrow> int option) \<Rightarrow> string list \<Rightarrow> (error + section_meta \<times> string list) option" where
  "read_section_header_plot pint fp =
     read_section_header (read_exact_ints_plot pint) header_items_plot pint fp"

subsection \<open>The compression of a header, as the specification words it\<close>

text \<open>
  The walk of the specification over the pairs of a name and a length: a pair with
  length \<open>0\<close> gives a scalar item and the walk advances by one; a pair with a length
  \<open>L > 0\<close> whose run, the next \<open>L\<close> pairs from it on, consists of that same pair, gives
  one array item and the walk advances by \<open>L\<close>; a run that does not fit makes the
  header inconsistent, \<open>None\<close>.
\<close>

function spec_walk :: "item list \<Rightarrow> item list option" where
  "spec_walk [] = Some []"
| "spec_walk ((name, L) # rest) =
     (if L = 0 then map_option ((#) (name, 0)) (spec_walk rest)
      else if 0 < L \<and> nat L \<le> length ((name, L) # rest)
              \<and> list_all (\<lambda>p. p = (name, L)) (take (nat L) ((name, L) # rest))
        then map_option ((#) (name, L)) (spec_walk (drop (nat L) ((name, L) # rest)))
      else None)"
  by pat_completeness auto
termination
  by (relation "measure length") auto

subsection \<open>Frames\<close>

text \<open>
  \<^verbatim>\<open>data\<close> is a dictionary from a name to the list of what each frame appended: a value
  for a scalar, a list of values for an array. It is an association list in insertion
  order; \<^verbatim>\<open>{name: [] for name, _ in items}\<close> keeps the first position of a repeated name.
\<close>

datatype 'f entry = is_Scalar: Scalar (scalar_of: 'f) | is_Vector: Vector (vector_of: "'f list")

type_synonym 'f series = "(string \<times> 'f entry list) list"

definition init_data :: "item list \<Rightarrow> 'f series" where
  "init_data its = fold (\<lambda>(name, L) d. AList.update name [] d) its []"

text \<open>The \<^verbatim>\<open>for name, L in items\<close> loop that cuts one record into the variables.\<close>

fun slice_frame :: "item list \<Rightarrow> 'f list \<Rightarrow> int \<Rightarrow> 'f series \<Rightarrow> error + 'f series" where
  "slice_frame [] vals cur dat = Inr dat"
| "slice_frame ((name, L) # its) vals cur dat =
     (if L = 0 then
        (case py_index vals cur of
           Inl e \<Rightarrow> Inl e
         | Inr v \<Rightarrow>
             slice_frame its vals (cur + 1) (AList.map_entry name (\<lambda>s. s @ [Scalar v]) dat))
      else
        slice_frame its vals (cur + L)
          (AList.map_entry name (\<lambda>s. s @ [Vector (py_slice vals cur (cur + L))]) dat))"

text \<open>
  The \<^verbatim>\<open>while True\<close> loop over the frames. It looks one line ahead and stops at the end
  of the file; otherwise it reads one record, and an \<^verbatim>\<open>EOFError\<close> of that read also
  ends the loop (\<^verbatim>\<open>except EOFError: break\<close>), any other error propagates. With a record
  length that is not positive no line is ever consumed and the loop does not end: \<open>None\<close>.
\<close>

partial_function (option) read_frames ::
  "(string \<Rightarrow> 'f option) \<Rightarrow> int \<Rightarrow> item list \<Rightarrow> string list \<Rightarrow> 'f series \<Rightarrow>
   (error + 'f series) option" where
  "read_frames pfloat rec_n its fp dat =
     (case fp of
        [] \<Rightarrow> Some (Inr dat)
      | line # rest \<Rightarrow>
          (case read_values pfloat fp rec_n of
             Inl e \<Rightarrow> if e = EOFError then Some (Inr dat) else Some (Inl e)
           | Inr (vals, fp') \<Rightarrow>
               (case slice_frame its vals 0 dat of
                  Inl e \<Rightarrow> Some (Inl e)
                | Inr dat' \<Rightarrow> read_frames pfloat rec_n its fp' dat')))"

declare read_frames.simps [code]

text \<open>
  \<^verbatim>\<open>np.array(seq, dtype=float)\<close>: one dimension for a sequence of values (the empty
  sequence too), two for a sequence of lists of one length, \<^verbatim>\<open>ValueError\<close> for anything
  ragged.
\<close>

datatype 'f ndarray = Array1 "'f list" | Array2 "'f list list"

definition np_array :: "'f entry list \<Rightarrow> error + 'f ndarray" where
  "np_array seq =
     (if list_all is_Scalar seq then Inr (Array1 (map scalar_of seq))
      else if list_all is_Vector seq
           \<and> list_all (\<lambda>e. length (vector_of e) = length (vector_of (hd seq))) seq
        then Inr (Array2 (map vector_of seq))
      else Inl (ValueError Inhomogeneous))"

fun convert_all :: "'f series \<Rightarrow> error + (string \<times> 'f ndarray) list" where
  "convert_all [] = Inr []"
| "convert_all ((k, seq) # rest) =
     (case np_array seq of
        Inl e \<Rightarrow> Inl e
      | Inr a \<Rightarrow> (case convert_all rest of Inl e \<Rightarrow> Inl e | Inr out \<Rightarrow> Inr ((k, a) # out)))"

text \<open>
  The reader, given the header reader of its file: the static header and its one record
  are read and dropped, then the dynamic header, the frames and the conversion. The
  argument is the text of the file at \<^verbatim>\<open>path\<close>.
\<close>

definition read_classic ::
  "(string list \<Rightarrow> (error + section_meta \<times> string list) option) \<Rightarrow> (string \<Rightarrow> 'f option) \<Rightarrow>
   string \<Rightarrow> (error + (string \<times> 'f ndarray) list) option" where
  "read_classic header pfloat content =
     (case header (lines_of content) of
        None \<Rightarrow> None
      | Some (Inl e) \<Rightarrow> Some (Inl e)
      | Some (Inr (meta, fp1)) \<Rightarrow>
          (case read_values pfloat fp1 (total_values meta) of
             Inl e \<Rightarrow> Some (Inl e)
           | Inr (skipped, fp2) \<Rightarrow>
               (case header fp2 of
                  None \<Rightarrow> None
                | Some (Inl e) \<Rightarrow> Some (Inl e)
                | Some (Inr (dyn, fp3)) \<Rightarrow>
                    (case read_frames pfloat (total_values dyn) (items dyn) fp3
                            (init_data (items dyn)) of
                       None \<Rightarrow> None
                     | Some (Inl e) \<Rightarrow> Some (Inl e)
                     | Some (Inr dat) \<Rightarrow> Some (convert_all dat)))))"

definition read_classic_fort10 ::
  "(string \<Rightarrow> int option) \<Rightarrow> (string \<Rightarrow> 'f option) \<Rightarrow> string \<Rightarrow>
   (error + (string \<times> 'f ndarray) list) option" where
  "read_classic_fort10 pint pfloat content =
     read_classic (read_section_header_block pint) pfloat content"

definition read_fort10_dynamic ::
  "(string \<Rightarrow> int option) \<Rightarrow> (string \<Rightarrow> 'f option) \<Rightarrow> string \<Rightarrow>
   (error + (string \<times> 'f ndarray) list) option" where
  "read_fort10_dynamic pint pfloat content =
     read_classic (read_section_header_plot pint) pfloat content"

section \<open>Properties of the string operations\<close>

lemma starts_with_iff: "starts_with s p \<longleftrightarrow> (\<exists>post. s = p @ post)"
  by (induction s p rule: starts_with.induct) auto

lemma py_in_iff: "py_in sub s \<longleftrightarrow> (\<exists>pre post. s = pre @ sub @ post)"
proof (induction s)
  case Nil
  then show ?case by auto
next
  case (Cons c cs)
  show ?case
  proof
    assume "py_in sub (c # cs)"
    then consider "starts_with (c # cs) sub" | "py_in sub cs" by auto
    then show "\<exists>pre post. c # cs = pre @ sub @ post"
    proof cases
      case 1
      then obtain post where "c # cs = sub @ post" by (auto simp: starts_with_iff)
      then have "c # cs = [] @ sub @ post" by simp
      then show ?thesis by blast
    next
      case 2
      then obtain pre post where "cs = pre @ sub @ post" using Cons.IH by auto
      then have "c # cs = (c # pre) @ sub @ post" by simp
      then show ?thesis by blast
    qed
  next
    assume "\<exists>pre post. c # cs = pre @ sub @ post"
    then obtain pre post where e: "c # cs = pre @ sub @ post" by blast
    show "py_in sub (c # cs)"
    proof (cases pre)
      case Nil
      then have "starts_with (c # cs) sub" using e by (auto simp: starts_with_iff)
      then show ?thesis by simp
    next
      case (Cons a pre')
      then have "cs = pre' @ sub @ post" using e by simp
      then have "py_in sub cs" using Cons.IH by blast
      then show ?thesis by simp
    qed
  qed
qed

text \<open>
  The lines of a text are never empty and together they are the text, so the empty list
  is the only state of a file in which \<^verbatim>\<open>readline\<close> returns the empty string.
\<close>

lemma lines_from_nonempty: "[] \<notin> set (lines_from cur cs)"
  by (induction cs arbitrary: cur) auto

lemma lines_from_concat: "concat (lines_from cur cs) = rev cur @ cs"
  by (induction cs arbitrary: cur) auto

lemma lines_of_nonempty: "[] \<notin> set (lines_of content)"
  by (simp add: lines_of_def lines_from_nonempty)

lemma lines_of_concat: "concat (lines_of content) = content"
  by (simp add: lines_of_def lines_from_concat)

section \<open>Claims about the utilities and the detector\<close>

text \<open>
  C4, as the code has it: \<^verbatim>\<open>is_block_ascii_head\<close> answers Block exactly when the
  lower-cased sample contains both \<^verbatim>\<open>step=\<close> and \<^verbatim>\<open>time=\<close> as substrings, or
  contains the substring \<^verbatim>\<open>ascii_ouput\<close>; otherwise it answers Classic. It is a total
  function of the sample, so it raises on no input.
\<close>

theorem C4_detector_policy:
  "is_block_ascii_head sample \<longleftrightarrow>
     ((\<exists>p q. lower sample = p @ ''step='' @ q) \<and> (\<exists>p q. lower sample = p @ ''time='' @ q))
     \<or> (\<exists>p q. lower sample = p @ ''ascii_ouput'' @ q)"
  unfolding is_block_ascii_head_def py_in_iff ..

theorem C4_detector_policy_witness:
  "is_block_ascii_head ''# STEP= 3  Time= 1e-12'' \<and> \<not> is_block_ascii_head ''step=3''"
proof -
  have a: "lower ''# STEP= 3  Time= 1e-12'' = ''# '' @ ''step='' @ '' 3  time= 1e-12''"
    by (simp add: lower_def lower_char_def)
  have b: "lower ''# STEP= 3  Time= 1e-12'' = ''# step= 3  '' @ ''time='' @ '' 1e-12''"
    by (simp add: lower_def lower_char_def)
  have "is_block_ascii_head ''# STEP= 3  Time= 1e-12''"
    using C4_detector_policy [of "''# STEP= 3  Time= 1e-12''"] a b by blast
  moreover have "\<not> is_block_ascii_head ''step=3''"
    by (simp add: is_block_ascii_head_def lower_def lower_char_def)
  ultimately show ?thesis by simp
qed

text \<open>
  C4 as the specification states it (Classic whenever the sample does not contain both
  markers) fails: a sample with neither marker that contains \<^verbatim>\<open>ascii_ouput\<close> is
  detected as Block.
\<close>

theorem C4_detector_counterexample:
  "\<not> (py_in ''step='' (lower ''ASCII_ouput'') \<and> py_in ''time='' (lower ''ASCII_ouput''))
   \<and> is_block_ascii_head ''ASCII_ouput''"
  by (simp add: is_block_ascii_head_def lower_def lower_char_def)

text \<open>
  C9, as the code has it: the unit is compared after lower-casing; the factor is
  \<open>10\<^sup>4\<close> for \<^verbatim>\<open>cm\<close>, \<open>10\<^sup>6\<close> for \<^verbatim>\<open>m\<close>, \<^verbatim>\<open>meter\<close>, \<^verbatim>\<open>meters\<close>, and \<open>1\<close> for
  \<^verbatim>\<open>um\<close>, the micro-sign spelling, \<^verbatim>\<open>micron\<close>, \<^verbatim>\<open>microns\<close>; every other unit string
  exits with \<^verbatim>\<open>SystemExit\<close> and yields no factor.
\<close>

theorem C9_unit_factor:
  "(unit_factor_to_um u = Inr 10000 \<longleftrightarrow> lower u = ''cm'')
   \<and> (unit_factor_to_um u = Inr 1000000 \<longleftrightarrow> lower u \<in> {''m'', ''meter'', ''meters''})
   \<and> (unit_factor_to_um u = Inr 1 \<longleftrightarrow> lower u \<in> {''um'', micro_m, ''micron'', ''microns''})
   \<and> (unit_factor_to_um u = Inl SystemExit \<longleftrightarrow>
        lower u \<notin> {''cm'', ''m'', ''meter'', ''meters'', ''um'', micro_m, ''micron'', ''microns''})
   \<and> (\<forall>f. unit_factor_to_um u = Inr f \<longrightarrow> f \<in> {10000, 1000000, 1})"
  by (auto simp: unit_factor_to_um_def Let_def micro_m_def)

theorem C9_unit_factor_witness:
  "unit_factor_to_um ''cm'' = Inr 10000 \<and> unit_factor_to_um ''M'' = Inr 1000000
   \<and> unit_factor_to_um micro_m = Inr 1 \<and> unit_factor_to_um ''ft'' = Inl SystemExit"
proof -
  have "lower ''cm'' = ''cm''"
    by (simp add: lower_def lower_char_def)
  then have a: "unit_factor_to_um ''cm'' = Inr 10000"
    using C9_unit_factor [of "''cm''"] by simp
  have "lower ''M'' = ''m''"
    by (simp add: lower_def lower_char_def)
  then have b: "unit_factor_to_um ''M'' = Inr 1000000"
    using C9_unit_factor [of "''M''"] by simp
  have "lower micro_m = micro_m"
    by (simp add: lower_def lower_char_def micro_m_def)
  then have c: "unit_factor_to_um micro_m = Inr 1"
    using C9_unit_factor [of micro_m] by simp
  have "lower ''ft'' = ''ft''"
    by (simp add: lower_def lower_char_def)
  then have d: "unit_factor_to_um ''ft'' = Inl SystemExit"
    using C9_unit_factor [of "''ft''"] by (simp add: micro_m_def)
  from a b c d show ?thesis by simp
qed

text \<open>
  C9 as the specification states it (every unit outside cm, m, um, the micro-sign
  spelling and micron fails) is false: \<^verbatim>\<open>meters\<close> is outside that set and is accepted.
\<close>

theorem C9_unit_factor_counterexample:
  "''meters'' \<notin> {''cm'', ''m'', ''um'', micro_m, ''micron''}
   \<and> unit_factor_to_um ''meters'' = Inr 1000000"
  by (simp add: unit_factor_to_um_def lower_def lower_char_def micro_m_def)

section \<open>The frame decoder reads whole lines\<close>

lemma py_slice_0_nonneg: "0 \<le> n \<Longrightarrow> py_slice xs 0 n = take (nat n) xs"
  by (auto simp: py_slice_def slice_bound_def Let_def min_def max_def)

lemma py_slice_Nil [simp]: "py_slice [] i j = []"
  by (simp add: py_slice_def)

lemma read_values_loop_whole_lines:
  "read_values_loop pf n acc fp = Inr (vals, rest) \<Longrightarrow>
   \<exists>k vss. k \<le> length fp \<and> rest = drop k fp
     \<and> map (line_values pf) (take k fp) = map Inr vss
     \<and> vals = py_slice (acc @ concat vss) 0 n
     \<and> n \<le> int (length (acc @ concat vss))
     \<and> (\<forall>j<k. int (length (acc @ concat (take j vss))) < n)"
proof (induction fp arbitrary: acc)
  case Nil
  then have "vals = py_slice acc 0 n \<and> rest = [] \<and> n \<le> int (length acc)"
    by (auto split: if_splits)
  then show ?case by (intro exI [of _ 0] exI [of _ "[]"]) simp
next
  case (Cons line fp)
  show ?case
  proof (cases "int (length acc) < n")
    case False
    then have "vals = py_slice acc 0 n \<and> rest = line # fp" using Cons.prems by auto
    with False show ?thesis by (intro exI [of _ 0] exI [of _ "[]"]) simp
  next
    case True
    then obtain vs where lv: "line_values pf line = Inr vs"
      and rec: "read_values_loop pf n (acc @ vs) fp = Inr (vals, rest)"
      using Cons.prems by (auto split: sum.splits)
    from Cons.IH [OF rec] obtain k vss where k: "k \<le> length fp" "rest = drop k fp"
      "map (line_values pf) (take k fp) = map Inr vss"
      "vals = py_slice ((acc @ vs) @ concat vss) 0 n"
      "n \<le> int (length ((acc @ vs) @ concat vss))"
      "\<forall>j<k. int (length ((acc @ vs) @ concat (take j vss))) < n"
      by blast
    have "\<forall>j<Suc k. int (length (acc @ concat (take j (vs # vss)))) < n"
    proof (intro allI impI)
      fix j assume "j < Suc k"
      then show "int (length (acc @ concat (take j (vs # vss)))) < n"
        using True k(6) by (cases j) auto
    qed
    with k lv show ?thesis
      by (intro exI [of _ "Suc k"] exI [of _ "vs # vss"]) simp
  qed
qed

lemma read_values_loop_succeeds:
  "k \<le> length fp \<Longrightarrow> map (line_values pf) (take k fp) = map Inr vss \<Longrightarrow>
   n \<le> int (length (acc @ concat vss)) \<Longrightarrow>
   \<exists>vals rest. read_values_loop pf n acc fp = Inr (vals, rest)"
proof (induction fp arbitrary: acc k vss)
  case Nil
  then show ?case by auto
next
  case (Cons line fp)
  show ?case
  proof (cases "int (length acc) < n")
    case False
    then show ?thesis by simp
  next
    case True
    with Cons.prems obtain k' where k': "k = Suc k'" by (cases k) auto
    with Cons.prems obtain vs vss' where v: "vss = vs # vss'" "line_values pf line = Inr vs"
      "map (line_values pf) (take k' fp) = map Inr vss'"
      by (cases vss) auto
    have "\<exists>vals rest. read_values_loop pf n (acc @ vs) fp = Inr (vals, rest)"
      using Cons.IH [of k' vss' "acc @ vs"] Cons.prems k' v by simp
    with True v show ?thesis by simp
  qed
qed

text \<open>
  C7, as the code has it: \<^verbatim>\<open>_read_values\<close> reads the least number \<open>k\<close> of whole lines
  whose tokens, all of them numbers, amount to at least \<open>nvals\<close> values, and returns
  exactly the first \<open>nvals\<close> of them (none when \<open>nvals \<le> 0\<close>); a record may span
  several lines. The file is left after line \<open>k\<close>: the next record starts with the next
  line, and the tokens of line \<open>k\<close> beyond the \<open>nvals\<close>-th value belong to no record.
  Conversely the read succeeds whenever some prefix of the lines holds enough numbers.
\<close>

theorem C7_read_values_whole_lines:
  "(\<forall>vals rest. read_values pf fp nvals = Inr (vals, rest) \<longrightarrow>
      (\<exists>k vss. k \<le> length fp \<and> rest = drop k fp
         \<and> map (line_values pf) (take k fp) = map Inr vss
         \<and> vals = take (nat nvals) (concat vss)
         \<and> int (length vals) = max nvals 0
         \<and> (\<forall>j<k. int (length (concat (take j vss))) < nvals)))
   \<and> ((\<exists>k vss. k \<le> length fp \<and> map (line_values pf) (take k fp) = map Inr vss
          \<and> nvals \<le> int (length (concat vss))) \<longrightarrow>
       (\<exists>vals rest. read_values pf fp nvals = Inr (vals, rest)))"
proof (intro conjI allI impI)
  fix vals rest
  assume "read_values pf fp nvals = Inr (vals, rest)"
  then have "read_values_loop pf nvals [] fp = Inr (vals, rest)"
    by (simp add: read_values_def)
  from read_values_loop_whole_lines [OF this]
  obtain k vss where k: "k \<le> length fp" "rest = drop k fp"
    "map (line_values pf) (take k fp) = map Inr vss"
    "vals = py_slice (concat vss) 0 nvals"
    "nvals \<le> int (length (concat vss))"
    "\<forall>j<k. int (length (concat (take j vss))) < nvals"
    by auto
  have lk: "length vss = k"
    using k(1,3) by (metis length_map length_take min.absorb2)
  have v: "vals = take (nat nvals) (concat vss) \<and> int (length vals) = max nvals 0"
  proof (cases "0 \<le> nvals")
    case True
    then show ?thesis using k(4,5) by (auto simp: py_slice_0_nonneg)
  next
    case False
    then have "k = 0" using k(6) by (cases k) auto
    then have "vss = []" using lk by simp
    then show ?thesis using k(4) False by simp
  qed
  with k show "\<exists>k vss. k \<le> length fp \<and> rest = drop k fp
         \<and> map (line_values pf) (take k fp) = map Inr vss
         \<and> vals = take (nat nvals) (concat vss)
         \<and> int (length vals) = max nvals 0
         \<and> (\<forall>j<k. int (length (concat (take j vss))) < nvals)"
    by blast
next
  assume "\<exists>k vss. k \<le> length fp \<and> map (line_values pf) (take k fp) = map Inr vss
          \<and> nvals \<le> int (length (concat vss))"
  then obtain k vss where "k \<le> length fp" "map (line_values pf) (take k fp) = map Inr vss"
    "nvals \<le> int (length ([] @ concat vss))" by auto
  from read_values_loop_succeeds [OF this]
  show "\<exists>vals rest. read_values pf fp nvals = Inr (vals, rest)"
    by (simp add: read_values_def)
qed

theorem C7_read_values_whole_lines_witness:
  "\<exists>k vss. k \<le> length [''1.5 2\<newline>'', ''3e2 4 5\<newline>'', ''6\<newline>'']
     \<and> [''6\<newline>''] = drop k [''1.5 2\<newline>'', ''3e2 4 5\<newline>'', ''6\<newline>'']
     \<and> map (line_values sample_float) (take k [''1.5 2\<newline>'', ''3e2 4 5\<newline>'', ''6\<newline>''])
         = map Inr vss
     \<and> [3 / 2, 2, 300] = take (nat 3) (concat vss)
     \<and> int (length [3 / 2, 2, 300 :: real]) = max 3 0
     \<and> (\<forall>j<k. int (length (concat (take j vss))) < 3)"
proof -
  let ?fp = "[''1.5 2\<newline>'', ''3e2 4 5\<newline>'', ''6\<newline>'']"
  have r: "read_values sample_float ?fp 3 = Inr ([3 / 2, 2, 300], [''6\<newline>''])"
    by code_simp
  from C7_read_values_whole_lines [of sample_float ?fp 3, THEN conjunct1, rule_format, OF r]
  show ?thesis .
qed

text \<open>
  C7 as the specification states it (the next record resumes mid-stream, no value between
  consecutive records is lost) fails: with two values per record and the lines
  \<^verbatim>\<open>1 2 3\<close> and \<^verbatim>\<open>4 5\<close>, the records are \<open>[1, 2]\<close> and \<open>[4, 5]\<close>; the value 3 is
  dropped with the rest of its line.
\<close>

theorem C7_value_lost_counterexample:
  "read_values sample_float [''1 2 3\<newline>'', ''4 5\<newline>''] 2 = Inr ([1, 2], [''4 5\<newline>''])
   \<and> read_values sample_float [''4 5\<newline>''] 2 = Inr ([4, 5], [])
   \<and> line_values sample_float ''1 2 3\<newline>'' = Inr [1, 2, 3]
   \<and> line_values sample_float ''4 5\<newline>'' = Inr [4, 5]
   \<and> \<not> prefix ([1, 2] @ [4, 5 :: real]) ([1, 2, 3] @ [4, 5])"
  by code_simp

section \<open>The block reader collects rows between markers\<close>

lemma flush_data_nonempty:
  "\<forall>b\<in>set blocks. data b \<noteq> [] \<Longrightarrow> \<forall>b\<in>set (flush blocks cur). data b \<noteq> []"
  by (auto simp: flush_def split: option.splits)

lemma block_line_data_nonempty:
  "block_line pint pfloat (blocks, cur) raw = Inr (blocks', cur') \<Longrightarrow>
   \<forall>b\<in>set blocks. data b \<noteq> [] \<Longrightarrow> \<forall>b\<in>set blocks'. data b \<noteq> []"
  using flush_data_nonempty [of blocks cur]
  by (auto simp: block_line_def Let_def split: option.splits if_splits)

lemma block_lines_data_nonempty:
  "block_lines pint pfloat (blocks, cur) ls = Inr (blocks', cur') \<Longrightarrow>
   \<forall>b\<in>set blocks. data b \<noteq> [] \<Longrightarrow> \<forall>b\<in>set blocks'. data b \<noteq> []"
proof (induction ls arbitrary: blocks cur)
  case Nil
  then show ?case by simp
next
  case (Cons raw ls)
  from Cons.prems(1) obtain b1 c1 where
    s: "block_line pint pfloat (blocks, cur) raw = Inr (b1, c1)"
    and r: "block_lines pint pfloat (b1, c1) ls = Inr (blocks', cur')"
    by (auto split: sum.splits)
  from block_line_data_nonempty [OF s Cons.prems(2)] Cons.IH [OF r]
  show ?case by blast
qed

lemma block_line_marker:
  "BLOCK_START_RE_search raw = Some (g1, g2) \<Longrightarrow> pint g1 = Some k \<Longrightarrow> pfloat g2 = Some t \<Longrightarrow>
   block_line pint pfloat (blocks, cur) raw =
     Inr (flush blocks cur, Some \<lparr>cur_step = k, cur_time_s = t, cur_rows = []\<rparr>)"
  by (simp add: block_line_def)

lemma block_line_seeking:
  "BLOCK_START_RE_search raw = None \<Longrightarrow>
   block_line pint pfloat (blocks, None) raw = Inr (blocks, None)"
  by (simp add: block_line_def)

lemma block_line_collecting:
  "BLOCK_START_RE_search raw = None \<Longrightarrow>
   block_line pint pfloat (blocks, Some c) raw =
     Inr (blocks, Some (c\<lparr>cur_rows := cur_rows c @ rows_of pfloat [raw]\<rparr>))"
  by (simp add: block_line_def rows_of_def row_of_def Let_def List.map_filter_simps
      split: option.splits)

lemma block_lines_seeking:
  "\<forall>l\<in>set ls. BLOCK_START_RE_search l = None \<Longrightarrow>
   block_lines pint pfloat (blocks, None) ls = Inr (blocks, None)"
  by (induction ls) (simp_all add: block_line_seeking)

lemma rows_of_Cons: "rows_of pfloat (l # ls) = rows_of pfloat [l] @ rows_of pfloat ls"
  by (simp add: rows_of_def List.map_filter_simps split: option.splits)

lemma block_lines_collecting:
  "\<forall>l\<in>set ls. BLOCK_START_RE_search l = None \<Longrightarrow>
   block_lines pint pfloat (blocks, Some c) ls =
     Inr (blocks, Some (c\<lparr>cur_rows := cur_rows c @ rows_of pfloat ls\<rparr>))"
proof (induction ls arbitrary: c)
  case Nil
  then show ?case by (simp add: rows_of_def List.map_filter_simps)
next
  case (Cons l ls)
  then show ?case
    by (simp add: block_line_collecting rows_of_Cons [of pfloat l ls])
qed

lemma block_lines_append:
  "block_lines pint pfloat st (xs @ ys) =
     (case block_lines pint pfloat st xs of
        Inl e \<Rightarrow> Inl e
      | Inr st' \<Rightarrow> block_lines pint pfloat st' ys)"
  by (induction xs arbitrary: st) (auto split: sum.splits)

lemma block_lines_section:
  assumes "BLOCK_START_RE_search m = Some (g1, g2)" "pint g1 = Some k" "pfloat g2 = Some t"
    and "\<forall>l\<in>set body. BLOCK_START_RE_search l = None"
  shows "block_lines pint pfloat (blocks, cur) (m # body) =
     Inr (flush blocks cur, Some \<lparr>cur_step = k, cur_time_s = t, cur_rows = rows_of pfloat body\<rparr>)"
  using assms by (simp add: block_line_marker block_lines_collecting)

lemma block_lines_sections:
  "list_all (is_section pint pfloat) sections \<Longrightarrow>
   \<exists>bs c. block_lines pint pfloat (blocks, cur) (concat (map section_lines sections)) = Inr (bs, c)
     \<and> flush bs c = flush blocks cur @ concat (map (section_blocks pfloat) sections)"
proof (induction sections arbitrary: blocks cur)
  case Nil
  then show ?case by simp
next
  case (Cons s sections)
  obtain m k t body where s: "s = (m, k, t, body)" by (cases s)
  from Cons.prems s obtain g1 g2 where
    g: "BLOCK_START_RE_search m = Some (g1, g2)" "pint g1 = Some k" "pfloat g2 = Some t"
    and nb: "\<forall>l\<in>set body. BLOCK_START_RE_search l = None"
    by (auto simp: is_section_def list_all_iff split: option.splits)
  let ?c = "\<lparr>cur_step = k, cur_time_s = t, cur_rows = rows_of pfloat body\<rparr>"
  have first: "block_lines pint pfloat (blocks, cur) (m # body) = Inr (flush blocks cur, Some ?c)"
    using g nb by (rule block_lines_section)
  from Cons.prems have "list_all (is_section pint pfloat) sections" by simp
  from Cons.IH [OF this, of "flush blocks cur" "Some ?c"]
  obtain bs c where
    r: "block_lines pint pfloat (flush blocks cur, Some ?c) (concat (map section_lines sections))
          = Inr (bs, c)"
    and f: "flush bs c
          = flush (flush blocks cur) (Some ?c) @ concat (map (section_blocks pfloat) sections)"
    by blast
  have "block_lines pint pfloat (blocks, cur) (concat (map section_lines (s # sections)))
      = block_lines pint pfloat (blocks, cur) ((m # body) @ concat (map section_lines sections))"
    by (simp add: s section_lines_def)
  also have "\<dots> = Inr (bs, c)"
    unfolding block_lines_append first using r by simp
  finally have run: "block_lines pint pfloat (blocks, cur)
      (concat (map section_lines (s # sections))) = Inr (bs, c)" .
  have "flush (flush blocks cur) (Some ?c) = flush blocks cur @ section_blocks pfloat s"
    by (simp add: flush_def section_blocks_def s)
  with f have "flush bs c
      = flush blocks cur @ concat (map (section_blocks pfloat) (s # sections))"
    by simp
  with run show ?case by blast
qed

text \<open>
  C5: for every stream whose lines are a preamble without a marker followed by any
  number of sections (a marker line that the pattern matches and whose step and time are
  numbers, then lines without a marker), \<^verbatim>\<open>parse_block_ascii\<close> returns, in order, one
  block for every section that has a row, with the step and the time of its marker and,
  as data, the rows of its lines: the lines before the first marker are ignored, each new
  marker flushes the block in progress, the end of the stream flushes the last one, and
  a column-label line and every line that is not seven numbers are skipped. When no
  section has a row the result is "No block-ascii data found". With the markers
  \<^verbatim>\<open>step=1 time=1e-12\<close> and \<^verbatim>\<open>step=2 time=2e-12\<close>, three rows and two rows, these are
  two blocks with the row counts 3 and 2 and the pairs (1, float("1e-12")) and
  (2, float("2e-12")).
\<close>

theorem C5_blocks_of_sections:
  assumes "lines_of stream = preamble @ concat (map section_lines sections)"
    and "list_all (\<lambda>l. BLOCK_START_RE_search l = None) preamble"
    and "list_all (is_section pint pfloat) sections"
  shows "parse_block_ascii pint pfloat stream =
     (if concat (map (section_blocks pfloat) sections) = [] then Inl (ValueError NoBlockData)
      else Inr (concat (map (section_blocks pfloat) sections)))"
proof -
  have "\<forall>l\<in>set preamble. BLOCK_START_RE_search l = None"
    using assms(2) by (simp add: list_all_iff)
  then have pre: "block_lines pint pfloat ([], None) preamble = Inr ([], None)"
    by (rule block_lines_seeking)
  from block_lines_sections [OF assms(3), of "[]" None]
  obtain bs c where
    r: "block_lines pint pfloat ([], None) (concat (map section_lines sections)) = Inr (bs, c)"
    and f: "flush bs c = concat (map (section_blocks pfloat) sections)"
    by (auto simp: flush_def)
  have "block_lines pint pfloat ([], None) (lines_of stream) = Inr (bs, c)"
    unfolding assms(1) block_lines_append pre using r by simp
  then show ?thesis
    using f by (simp add: parse_block_ascii_def Let_def)
qed

lemma parse_block_ascii_data_nonempty:
  assumes p: "parse_block_ascii pint pfloat stream = Inr blocks"
  shows "blocks \<noteq> [] \<and> (\<forall>b\<in>set blocks. data b \<noteq> [])"
proof -
  from p obtain bs cur where
    l: "block_lines pint pfloat ([], None) (lines_of stream) = Inr (bs, cur)"
    and f: "blocks = flush bs cur" and ne: "blocks \<noteq> []"
    by (auto simp: parse_block_ascii_def Let_def split: sum.splits if_splits)
  have "\<forall>b\<in>set bs. data b \<noteq> []"
    using block_lines_data_nonempty [OF l] by simp
  then have "\<forall>b\<in>set (flush bs cur). data b \<noteq> []"
    by (rule flush_data_nonempty)
  with f ne show ?thesis by simp
qed

text \<open>
  C10: every block that \<^verbatim>\<open>parse_block_ascii\<close> returns has at least one data row, and
  the returned sequence is not empty. A block in progress with no row is not appended:
  neither by the flush at the end of the stream nor by the next marker line, which only
  replaces it by the new block in progress.
\<close>

theorem C10_no_empty_block:
  "(\<forall>blocks. parse_block_ascii pint pfloat stream = Inr blocks \<longrightarrow>
      blocks \<noteq> [] \<and> (\<forall>b\<in>set blocks. data b \<noteq> []))
   \<and> (\<forall>c blocks0. cur_rows c = [] \<longrightarrow> flush blocks0 (Some c) = blocks0)
   \<and> (\<forall>c blocks0 raw g1 g2 k t.
        cur_rows c = [] \<and> BLOCK_START_RE_search raw = Some (g1, g2)
        \<and> pint g1 = Some k \<and> pfloat g2 = Some t \<longrightarrow>
        block_line pint pfloat (blocks0, Some c) raw =
          Inr (blocks0, Some \<lparr>cur_step = k, cur_time_s = t, cur_rows = []\<rparr>))"
  using parse_block_ascii_data_nonempty [of pint pfloat stream]
  by (simp add: block_line_marker flush_def)

theorem C10_no_empty_block_witness:
  "parse_block_ascii sample_int sample_float
      ''step=1 time=1e-12\<newline>step=2 time=2e-12\<newline>1 2 3 4 5 6 7\<newline>''
     = Inr [\<lparr>step = 2, time_s = 2 / 10 ^ 12, data = [[1, 2, 3, 4, 5, 6, 7]]\<rparr>]
   \<and> [\<lparr>step = 2, time_s = 2 / 10 ^ 12, data = [[1, 2, 3, 4, 5, 6, 7 :: real]]\<rparr>] \<noteq> []
   \<and> list_all (\<lambda>b. data b \<noteq> [])
         [\<lparr>step = 2, time_s = 2 / 10 ^ 12, data = [[1, 2, 3, 4, 5, 6, 7 :: real]]\<rparr>]"
proof -
  have r: "parse_block_ascii sample_int sample_float
      ''step=1 time=1e-12\<newline>step=2 time=2e-12\<newline>1 2 3 4 5 6 7\<newline>''
     = Inr [\<lparr>step = 2, time_s = 2 / 10 ^ 12, data = [[1, 2, 3, 4, 5, 6, 7]]\<rparr>]"
    by code_simp
  from C10_no_empty_block [of sample_int sample_float
      "''step=1 time=1e-12\<newline>step=2 time=2e-12\<newline>1 2 3 4 5 6 7\<newline>''",
      THEN conjunct1, rule_format, OF r] r
  show ?thesis unfolding list_all_iff by blast
qed

theorem C5_blocks_of_sections_witness:
  "parse_block_ascii sample_int sample_float
     (''step=1 time=1e-12\<newline>''
      @ ''1 0.0 0 1 1 1 0\<newline>2 0.1 0 1 1 1 0\<newline>3 0.2 0 1 1 1 0\<newline>''
      @ ''step=2 time=2e-12\<newline>''
      @ ''1 0.0 0 2 1 1 0\<newline>2 0.1 0 2 1 1 0\<newline>'') =
   Inr [\<lparr>step = 1, time_s = 1 / 10 ^ 12,
          data = [[1, 0, 0, 1, 1, 1, 0], [2, 1 / 10, 0, 1, 1, 1, 0], [3, 2 / 10, 0, 1, 1, 1, 0]]\<rparr>,
        \<lparr>step = 2, time_s = 2 / 10 ^ 12,
          data = [[1, 0, 0, 2, 1, 1, 0], [2, 1 / 10, 0, 2, 1, 1, 0]]\<rparr>]
   \<and> parse_block_ascii sample_int sample_float
     (''# run 7\<newline>9 9 9 9 9 9 9\<newline>''
      @ '' Step = 1  TIME = 1e-12 s\<newline> i x v rho te ti depo\<newline>1 0.0 0 1 1 1 0\<newline>\<newline>''
      @ ''step=2 time=2e-12\<newline>1 0.0 0 2 1 1\<newline>''
      @ ''step=3 time=3e-12\<newline>1 0.0 0 3 1 1 0\<newline>2 0.1 0 3 1 1 x\<newline>3 0.2 0 3 1 1 0'') =
   Inr [\<lparr>step = 1, time_s = 1 / 10 ^ 12, data = [[1, 0, 0, 1, 1, 1, 0]]\<rparr>,
        \<lparr>step = 3, time_s = 3 / 10 ^ 12,
          data = [[1, 0, 0, 3, 1, 1, 0], [3, 2 / 10, 0, 3, 1, 1, 0]]\<rparr>]"
proof -
  let ?s1 = "''step=1 time=1e-12\<newline>''
      @ ''1 0.0 0 1 1 1 0\<newline>2 0.1 0 1 1 1 0\<newline>3 0.2 0 1 1 1 0\<newline>''
      @ ''step=2 time=2e-12\<newline>''
      @ ''1 0.0 0 2 1 1 0\<newline>2 0.1 0 2 1 1 0\<newline>''"
  let ?secs1 = "[(''step=1 time=1e-12\<newline>'', 1, 1 / 10 ^ 12,
        [''1 0.0 0 1 1 1 0\<newline>'', ''2 0.1 0 1 1 1 0\<newline>'', ''3 0.2 0 1 1 1 0\<newline>'']),
      (''step=2 time=2e-12\<newline>'', 2, 2 / 10 ^ 12,
        [''1 0.0 0 2 1 1 0\<newline>'', ''2 0.1 0 2 1 1 0\<newline>''])] :: real block_section list"
  have l1: "lines_of ?s1 = [] @ concat (map section_lines ?secs1)"
    by code_simp
  have p1: "list_all (\<lambda>l. BLOCK_START_RE_search l = None) []"
    by simp
  have c1: "list_all (is_section sample_int sample_float) ?secs1"
    by code_simp
  have b1: "concat (map (section_blocks sample_float) ?secs1) =
      [\<lparr>step = 1, time_s = 1 / 10 ^ 12,
          data = [[1, 0, 0, 1, 1, 1, 0], [2, 1 / 10, 0, 1, 1, 1, 0], [3, 2 / 10, 0, 1, 1, 1, 0]]\<rparr>,
        \<lparr>step = 2, time_s = 2 / 10 ^ 12,
          data = [[1, 0, 0, 2, 1, 1, 0], [2, 1 / 10, 0, 2, 1, 1, 0]]\<rparr>]"
    by code_simp
  have r1: "parse_block_ascii sample_int sample_float ?s1 =
      Inr [\<lparr>step = 1, time_s = 1 / 10 ^ 12,
          data = [[1, 0, 0, 1, 1, 1, 0], [2, 1 / 10, 0, 1, 1, 1, 0], [3, 2 / 10, 0, 1, 1, 1, 0]]\<rparr>,
        \<lparr>step = 2, time_s = 2 / 10 ^ 12,
          data = [[1, 0, 0, 2, 1, 1, 0], [2, 1 / 10, 0, 2, 1, 1, 0]]\<rparr>]"
    using C5_blocks_of_sections [where pint = sample_int and pfloat = sample_float, OF l1 p1 c1]
    unfolding b1 by simp
  let ?s2 = "''# run 7\<newline>9 9 9 9 9 9 9\<newline>''
      @ '' Step = 1  TIME = 1e-12 s\<newline> i x v rho te ti depo\<newline>1 0.0 0 1 1 1 0\<newline>\<newline>''
      @ ''step=2 time=2e-12\<newline>1 0.0 0 2 1 1\<newline>''
      @ ''step=3 time=3e-12\<newline>1 0.0 0 3 1 1 0\<newline>2 0.1 0 3 1 1 x\<newline>3 0.2 0 3 1 1 0''"
  let ?pre2 = "[''# run 7\<newline>'', ''9 9 9 9 9 9 9\<newline>'']"
  let ?secs2 = "[('' Step = 1  TIME = 1e-12 s\<newline>'', 1, 1 / 10 ^ 12,
        ['' i x v rho te ti depo\<newline>'', ''1 0.0 0 1 1 1 0\<newline>'', ''\<newline>'']),
      (''step=2 time=2e-12\<newline>'', 2, 2 / 10 ^ 12, [''1 0.0 0 2 1 1\<newline>'']),
      (''step=3 time=3e-12\<newline>'', 3, 3 / 10 ^ 12,
        [''1 0.0 0 3 1 1 0\<newline>'', ''2 0.1 0 3 1 1 x\<newline>'', ''3 0.2 0 3 1 1 0''])]
      :: real block_section list"
  have l2: "lines_of ?s2 = ?pre2 @ concat (map section_lines ?secs2)"
    by code_simp
  have p2: "list_all (\<lambda>l. BLOCK_START_RE_search l = None) ?pre2"
    by code_simp
  have c2: "list_all (is_section sample_int sample_float) ?secs2"
    by code_simp
  have b2: "concat (map (section_blocks sample_float) ?secs2) =
      [\<lparr>step = 1, time_s = 1 / 10 ^ 12, data = [[1, 0, 0, 1, 1, 1, 0]]\<rparr>,
        \<lparr>step = 3, time_s = 3 / 10 ^ 12,
          data = [[1, 0, 0, 3, 1, 1, 0], [3, 2 / 10, 0, 3, 1, 1, 0]]\<rparr>]"
    by code_simp
  have r2: "parse_block_ascii sample_int sample_float ?s2 =
      Inr [\<lparr>step = 1, time_s = 1 / 10 ^ 12, data = [[1, 0, 0, 1, 1, 1, 0]]\<rparr>,
        \<lparr>step = 3, time_s = 3 / 10 ^ 12,
          data = [[1, 0, 0, 3, 1, 1, 0], [3, 2 / 10, 0, 3, 1, 1, 0]]\<rparr>]"
    using C5_blocks_of_sections [where pint = sample_int and pfloat = sample_float, OF l2 p2 c2]
    unfolding b2 by simp
  from r1 r2 show ?thesis by (intro conjI)
qed

section \<open>Frame selection\<close>

lemma first_min_spec:
  "xs \<noteq> [] \<Longrightarrow>
   first_min xs < length xs
   \<and> (\<forall>j<length xs. xs ! first_min xs \<le> xs ! j)
   \<and> (\<forall>j<first_min xs. xs ! first_min xs < xs ! j)"
proof (induction xs rule: first_min.induct)
  case 1
  then show ?case by simp
next
  case (2 x)
  then show ?case by simp
next
  case (3 x y ys)
  let ?r = "first_min (y # ys)"
  have ih: "?r < length (y # ys)" "\<forall>j<length (y # ys). (y # ys) ! ?r \<le> (y # ys) ! j"
    "\<forall>j<?r. (y # ys) ! ?r < (y # ys) ! j"
    using 3 by simp_all
  show ?case
  proof (cases "(y # ys) ! ?r < x")
    case True
    then have f: "first_min (x # y # ys) = Suc ?r" by (simp add: Let_def)
    have a: "\<forall>j<length (x # y # ys). (x # y # ys) ! Suc ?r \<le> (x # y # ys) ! j"
    proof (intro allI impI)
      fix j assume "j < length (x # y # ys)"
      then show "(x # y # ys) ! Suc ?r \<le> (x # y # ys) ! j"
        using True ih(2) by (cases j) auto
    qed
    have b: "\<forall>j<Suc ?r. (x # y # ys) ! Suc ?r < (x # y # ys) ! j"
    proof (intro allI impI)
      fix j assume "j < Suc ?r"
      then show "(x # y # ys) ! Suc ?r < (x # y # ys) ! j"
        using True ih(3) by (cases j) auto
    qed
    from a b ih(1) show ?thesis unfolding f by simp
  next
    case False
    then have f: "first_min (x # y # ys) = 0" by (simp add: Let_def)
    have a: "\<forall>j<length (x # y # ys). (x # y # ys) ! 0 \<le> (x # y # ys) ! j"
    proof (intro allI impI)
      fix j assume "j < length (x # y # ys)"
      then show "(x # y # ys) ! 0 \<le> (x # y # ys) ! j"
      proof (cases j)
        case 0
        then show ?thesis by simp
      next
        case (Suc j')
        then have "(y # ys) ! ?r \<le> (y # ys) ! j'"
          using ih(2) \<open>j < length (x # y # ys)\<close> by simp
        with False Suc show ?thesis by simp
      qed
    qed
    then show ?thesis unfolding f by simp
  qed
qed

lemma first_min_map:
  assumes "xs \<noteq> []"
  shows "first_min (map f xs) < length xs
   \<and> (\<forall>j<length xs. f (xs ! first_min (map f xs)) \<le> f (xs ! j))
   \<and> (\<forall>j<first_min (map f xs). f (xs ! first_min (map f xs)) < f (xs ! j))"
proof -
  let ?i = "first_min (map f xs)"
  have ne: "map f xs \<noteq> []" using assms by simp
  from first_min_spec [OF ne]
  have i: "?i < length (map f xs)"
    and le: "\<And>j. j < length (map f xs) \<Longrightarrow> map f xs ! ?i \<le> map f xs ! j"
    and lt: "\<And>j. j < ?i \<Longrightarrow> map f xs ! ?i < map f xs ! j"
    by blast+
  have i': "?i < length xs" using i by simp
  have e: "map f xs ! ?i = f (xs ! ?i)" using i' by (rule nth_map)
  have "\<forall>j<length xs. f (xs ! ?i) \<le> f (xs ! j)"
  proof (intro allI impI)
    fix j assume j: "j < length xs"
    then have "map f xs ! ?i \<le> map f xs ! j" using le by simp
    moreover have "map f xs ! j = f (xs ! j)" using j by (rule nth_map)
    ultimately show "f (xs ! ?i) \<le> f (xs ! j)" using e by simp
  qed
  moreover have "\<forall>j<?i. f (xs ! ?i) < f (xs ! j)"
  proof (intro allI impI)
    fix j assume j: "j < ?i"
    then have "map f xs ! ?i < map f xs ! j" using lt by simp
    moreover have "map f xs ! j = f (xs ! j)" using j i' by (intro nth_map) simp
    ultimately show "f (xs ! ?i) < f (xs ! j)" using e by simp
  qed
  ultimately show ?thesis using i' by blast
qed

lemma np_clip_nonempty:
  "0 < n \<Longrightarrow> np_clip fr 0 (n - 1) = (if fr < 0 then 0 else if n - 1 < fr then n - 1 else fr)"
  by (auto simp: np_clip_def)

lemma py_index_nonneg: "0 \<le> i \<Longrightarrow> i < int (length xs) \<Longrightarrow> py_index xs i = Inr (xs ! nat i)"
  by (simp add: py_index_def Let_def)

lemma py_index_last: "xs \<noteq> [] \<Longrightarrow> py_index xs (- 1) = Inr (last xs)"
  by (cases xs rule: rev_cases) (auto simp: py_index_def Let_def nth_append)

lemma pick_block_frame:
  assumes "blocks \<noteq> []"
  shows "pick_block to_s ad blocks (Some fr) tp =
     (let i = (if fr < 0 then 0 else if int (length blocks) - 1 < fr
               then int (length blocks) - 1 else fr)
      in Inr (blocks ! nat i, i))"
proof -
  have n: "0 < int (length blocks)" using assms by simp
  show ?thesis
    using n by (auto simp: pick_block_def Let_def np_clip_nonempty [OF n] py_index_nonneg)
qed

lemma pick_block_time:
  assumes "blocks \<noteq> []"
  shows "\<exists>i<length blocks.
      pick_block to_s ad blocks None (Some tp) = Inr (blocks ! i, int i)
      \<and> (\<forall>j<length blocks.
            ad (time_s (blocks ! i)) (to_s tp) \<le> ad (time_s (blocks ! j)) (to_s tp))
      \<and> (\<forall>j<i. ad (time_s (blocks ! i)) (to_s tp) < ad (time_s (blocks ! j)) (to_s tp))"
proof -
  let ?f = "\<lambda>b. ad (time_s b) (to_s tp)"
  let ?i = "first_min (map ?f blocks)"
  note s = first_min_map [OF assms, of ?f]
  have i: "?i < length blocks" using s by blast
  have "pick_block to_s ad blocks None (Some tp) = Inr (blocks ! ?i, int ?i)"
    using i assms by (simp add: pick_block_def Let_def argmin_def py_index_nonneg comp_def)
  with s show ?thesis by blast
qed

lemma pick_block_default:
  "blocks \<noteq> [] \<Longrightarrow> pick_block to_s ad blocks None None = Inr (last blocks, int (length blocks) - 1)"
  by (simp add: pick_block_def py_index_last)

lemma main_frame_index_time:
  assumes "t \<noteq> []"
  shows "\<exists>i<length t.
      main_frame_index to_s ad t Nt None (Some tp) = Inr (int i)
      \<and> (\<forall>j<length t. ad (t ! i) (to_s tp) \<le> ad (t ! j) (to_s tp))
      \<and> (\<forall>j<i. ad (t ! i) (to_s tp) < ad (t ! j) (to_s tp))"
proof -
  let ?f = "\<lambda>x. ad x (to_s tp)"
  let ?i = "first_min (map ?f t)"
  note s = first_min_map [OF assms, of ?f]
  have "main_frame_index to_s ad t Nt None (Some tp) = Inr (int ?i)"
    using assms by (simp add: main_frame_index_def Let_def argmin_def)
  with s show ?thesis by blast
qed

text \<open>
  C3: on a non-empty sequence, \<^verbatim>\<open>pick_block\<close> (and the choice made in \<^verbatim>\<open>main\<close> for the
  classic format) with a frame given returns that frame clamped into \<open>[0, count - 1]\<close>,
  whatever \<^verbatim>\<open>time_ps\<close> is; with no frame and a time given it returns an index whose
  distance from the target time is least, and the lowest such index; with neither it
  returns the last index.
\<close>

theorem C3_frame_selection:
  assumes "blocks \<noteq> []" and "t \<noteq> []" and "0 < Nt"
  shows
    "(\<forall>fr tp. pick_block to_s ad blocks (Some fr) tp =
        (let i = (if fr < 0 then 0 else if int (length blocks) - 1 < fr
                  then int (length blocks) - 1 else fr)
         in Inr (blocks ! nat i, i)))
     \<and> (\<forall>tp. \<exists>i<length blocks.
          pick_block to_s ad blocks None (Some tp) = Inr (blocks ! i, int i)
          \<and> (\<forall>j<length blocks.
                ad (time_s (blocks ! i)) (to_s tp) \<le> ad (time_s (blocks ! j)) (to_s tp))
          \<and> (\<forall>j<i. ad (time_s (blocks ! i)) (to_s tp) < ad (time_s (blocks ! j)) (to_s tp)))
     \<and> pick_block to_s ad blocks None None = Inr (last blocks, int (length blocks) - 1)
     \<and> (\<forall>fr tp. main_frame_index to_s ad t Nt (Some fr) tp =
          Inr (if fr < 0 then 0 else if int Nt - 1 < fr then int Nt - 1 else fr))
     \<and> (\<forall>tp. \<exists>i<length t.
          main_frame_index to_s ad t Nt None (Some tp) = Inr (int i)
          \<and> (\<forall>j<length t. ad (t ! i) (to_s tp) \<le> ad (t ! j) (to_s tp))
          \<and> (\<forall>j<i. ad (t ! i) (to_s tp) < ad (t ! j) (to_s tp)))
     \<and> main_frame_index to_s ad t Nt None None = Inr (int Nt - 1)"
proof -
  have n: "0 < int Nt" using assms(3) by simp
  have m: "\<forall>fr tp. main_frame_index to_s ad t Nt (Some fr) tp =
          Inr (if fr < 0 then 0 else if int Nt - 1 < fr then int Nt - 1 else fr)"
    by (simp add: main_frame_index_def np_clip_nonempty [OF n])
  have d: "main_frame_index to_s ad t Nt None None = Inr (int Nt - 1)"
    by (simp add: main_frame_index_def)
  show ?thesis
    using pick_block_frame [OF assms(1)] pick_block_time [OF assms(1)]
      pick_block_default [OF assms(1)] main_frame_index_time [OF assms(2)] m d
    by blast
qed

theorem C3_frame_selection_witness:
  "pick_block (\<lambda>p. p / 10 ^ 12) (\<lambda>a b. \<bar>a - b\<bar>)
      (map (\<lambda>k. \<lparr>step = k, time_s = real_of_int k / 10 ^ 12, data = [[]]\<rparr>) [0, 1, 2, 3, 4, 5, 6, 7, 8, 9])
      (Some (- 5)) (Some 4)
     = Inr (\<lparr>step = 0, time_s = 0, data = [[]]\<rparr>, 0)
   \<and> pick_block (\<lambda>p. p / 10 ^ 12) (\<lambda>a b. \<bar>a - b\<bar>)
      (map (\<lambda>k. \<lparr>step = k, time_s = real_of_int k / 10 ^ 12, data = [[]]\<rparr>) [0, 1, 2, 3, 4, 5, 6, 7, 8, 9])
      (Some 50) None
     = Inr (\<lparr>step = 9, time_s = 9 / 10 ^ 12, data = [[]]\<rparr>, 9)
   \<and> main_frame_index (\<lambda>p. p / 10 ^ 12) (\<lambda>a b. \<bar>a - b\<bar>)
        [0, 1 / 10 ^ 12, 5 / 10 ^ 12, 9 / 10 ^ 12 :: real] 4 (Some 50) (Some 4) = Inr 3
   \<and> main_frame_index (\<lambda>p. p / 10 ^ 12) (\<lambda>a b. \<bar>a - b\<bar>)
        [0, 1 / 10 ^ 12, 5 / 10 ^ 12, 9 / 10 ^ 12 :: real] 4 None None = Inr 3"
proof -
  let ?blocks = "map (\<lambda>k. \<lparr>step = k, time_s = real_of_int k / 10 ^ 12, data = [[]] :: real list list\<rparr>)
      [0, 1, 2, 3, 4, 5, 6, 7, 8, 9]"
  let ?t = "[0, 1 / 10 ^ 12, 5 / 10 ^ 12, 9 / 10 ^ 12 :: real]"
  have a: "?blocks \<noteq> []" and b: "?t \<noteq> []" and c: "0 < (4 :: nat)"
    by simp_all
  note th = C3_frame_selection [where to_s = "\<lambda>p. p / 10 ^ 12" and ad = "\<lambda>a b. \<bar>a - b\<bar>",
      OF a b c]
  have "pick_block (\<lambda>p. p / 10 ^ 12) (\<lambda>a b. \<bar>a - b\<bar>) ?blocks (Some (- 5)) (Some 4)
     = Inr (\<lparr>step = 0, time_s = 0, data = [[]]\<rparr>, 0)"
    using th [THEN conjunct1, rule_format, of "- 5" "Some 4"] by simp
  moreover have "pick_block (\<lambda>p. p / 10 ^ 12) (\<lambda>a b. \<bar>a - b\<bar>) ?blocks (Some 50) None
     = Inr (\<lparr>step = 9, time_s = 9 / 10 ^ 12, data = [[]]\<rparr>, 9)"
    using th [THEN conjunct1, rule_format, of 50 None] by simp
  moreover have "main_frame_index (\<lambda>p. p / 10 ^ 12) (\<lambda>a b. \<bar>a - b\<bar>) ?t 4 (Some 50) (Some 4) = Inr 3"
    using th [THEN conjunct2, THEN conjunct2, THEN conjunct2, THEN conjunct1, rule_format,
        of 50 "Some 4"] by simp
  moreover have "main_frame_index (\<lambda>p. p / 10 ^ 12) (\<lambda>a b. \<bar>a - b\<bar>) ?t 4 None None = Inr 3"
    using th by simp
  ultimately show ?thesis by (intro conjI)
qed

lemma nearest_time_example:
  "main_frame_index (\<lambda>p. p / 10 ^ 12) (\<lambda>a b. \<bar>a - b\<bar>)
        [0, 1 / 10 ^ 12, 5 / 10 ^ 12, 9 / 10 ^ 12 :: real] 4 None (Some 4) = Inr 2
   \<and> main_frame_index (\<lambda>p. p / 10 ^ 12) (\<lambda>a b. \<bar>a - b\<bar>)
        [0, 1 / 10 ^ 12, 5 / 10 ^ 12, 9 / 10 ^ 12 :: real] 4 None (Some (4 / 10)) = Inr 0"
  by (simp add: main_frame_index_def argmin_def Let_def)

section \<open>The frame loop of the classic reader\<close>

lemma read_values_consumes:
  assumes "read_values pf fp n = Inr (vals, fp')" and "0 < n"
  shows "length fp' < length fp"
proof -
  from assms(1) have "read_values_loop pf n [] fp = Inr (vals, fp')"
    by (simp add: read_values_def)
  from read_values_loop_whole_lines [OF this]
  obtain k vss where k: "k \<le> length fp" "fp' = drop k fp"
    "map (line_values pf) (take k fp) = map Inr vss"
    "n \<le> int (length (concat vss))"
    by auto
  have "k \<noteq> 0"
  proof
    assume "k = 0"
    then have "vss = []" using k(3) by simp
    then show False using k(4) assms(2) by simp
  qed
  then show ?thesis using k(1,2) by simp
qed

lemma read_values_loop_eof:
  "map (line_values pf) fp = map Inr vss \<Longrightarrow> int (length (acc @ concat vss)) < n \<Longrightarrow>
   read_values_loop pf n acc fp = Inl EOFError"
proof (induction fp arbitrary: acc vss)
  case Nil
  then show ?case by simp
next
  case (Cons line fp)
  then obtain vs vss' where v: "vss = vs # vss'" "line_values pf line = Inr vs"
    "map (line_values pf) fp = map Inr vss'"
    by (cases vss) auto
  have "read_values_loop pf n (acc @ vs) fp = Inl EOFError"
    using Cons.IH [OF v(3), of "acc @ vs"] Cons.prems(2) v(1) by simp
  moreover have "int (length acc) < n" using Cons.prems(2) by simp
  ultimately show ?case using v(2) by simp
qed

lemma read_frames_boundary: "read_frames pf rec_n its [] dat = Some (Inr dat)"
  by (subst read_frames.simps) simp

lemma read_frames_eof:
  "read_values pf fp rec_n = Inl EOFError \<Longrightarrow> read_frames pf rec_n its fp dat = Some (Inr dat)"
  by (subst read_frames.simps) (auto split: list.splits)

lemma read_frames_error:
  "fp \<noteq> [] \<Longrightarrow> read_values pf fp rec_n = Inl e \<Longrightarrow> e \<noteq> EOFError \<Longrightarrow>
   read_frames pf rec_n its fp dat = Some (Inl e)"
  by (subst read_frames.simps) (auto split: list.splits)

lemma read_frames_frame:
  "fp \<noteq> [] \<Longrightarrow> read_values pf fp rec_n = Inr (vals, fp') \<Longrightarrow>
   read_frames pf rec_n its fp dat =
     (case slice_frame its vals 0 dat of
        Inl e \<Rightarrow> Some (Inl e)
      | Inr dat' \<Rightarrow> read_frames pf rec_n its fp' dat')"
  by (subst read_frames.simps) (auto split: list.splits)

lemma read_frames_terminates:
  assumes "0 < rec_n"
  shows "\<exists>r. read_frames pf rec_n its fp dat = Some r"
proof (induction fp arbitrary: dat rule: length_induct)
  case (1 fp)
  show ?case
  proof (cases "fp = []")
    case True
    then show ?thesis by (simp add: read_frames_boundary)
  next
    case False
    show ?thesis
    proof (cases "read_values pf fp rec_n")
      case (Inl e)
      then show ?thesis
        using False read_frames_eof [of pf fp rec_n its dat]
          read_frames_error [of fp pf rec_n e its dat]
        by (cases "e = EOFError") auto
    next
      case (Inr p)
      obtain vals fp' where p: "p = (vals, fp')" by (cases p)
      have shorter: "length fp' < length fp"
        using read_values_consumes [OF _ assms] Inr p by simp
      show ?thesis
      proof (cases "slice_frame its vals 0 dat")
        case (Inl e)
        then show ?thesis using read_frames_frame [OF False, of pf rec_n vals fp' its dat] Inr p
          by simp
      next
        case (Inr dat')
        from 1 shorter obtain r where "read_frames pf rec_n its fp' dat' = Some r" by blast
        then show ?thesis
          using read_frames_frame [OF False, of pf rec_n vals fp' its dat] Inr p
            \<open>read_values pf fp rec_n = Inr p\<close>
          by simp
      qed
    qed
  qed
qed

text \<open>
  C1, as the code has it. The frame loop of \<^verbatim>\<open>read_classic_fort10\<close> and
  \<^verbatim>\<open>read_fort10_dynamic\<close> stops cleanly, keeping the frames read so far, when the file
  ends at a frame boundary, and also when it ends inside a frame: if the lines left hold
  fewer than \<^verbatim>\<open>rec_n\<close> values, \<^verbatim>\<open>_read_values\<close> raises \<^verbatim>\<open>EOFError\<close>, the loop catches it
  and the values of the unfinished frame are dropped. A complete record is cut into the
  variables and the loop goes on behind it. With a positive record length the loop
  returns on every file.
\<close>

theorem C1_frames_until_eof:
  "read_frames pf rec_n its [] dat = Some (Inr dat)
   \<and> (\<forall>fp vss. map (line_values pf) fp = map Inr vss \<and> int (length (concat vss)) < rec_n \<longrightarrow>
        read_values pf fp rec_n = Inl EOFError
        \<and> read_frames pf rec_n its fp dat = Some (Inr dat))
   \<and> (\<forall>fp vals fp'. fp \<noteq> [] \<and> read_values pf fp rec_n = Inr (vals, fp') \<longrightarrow>
        read_frames pf rec_n its fp dat =
          (case slice_frame its vals 0 dat of
             Inl e \<Rightarrow> Some (Inl e)
           | Inr dat' \<Rightarrow> read_frames pf rec_n its fp' dat'))
   \<and> (\<forall>fp. 0 < rec_n \<longrightarrow> (\<exists>r. read_frames pf rec_n its fp dat = Some r))"
proof (intro conjI allI impI)
  show "read_frames pf rec_n its [] dat = Some (Inr dat)"
    by (rule read_frames_boundary)
next
  fix fp vss
  assume a: "map (line_values pf) fp = map Inr vss \<and> int (length (concat vss)) < rec_n"
  then show e: "read_values pf fp rec_n = Inl EOFError"
    using read_values_loop_eof [of pf fp vss "[]" rec_n] by (simp add: read_values_def)
  then show "read_frames pf rec_n its fp dat = Some (Inr dat)"
    by (rule read_frames_eof)
next
  fix fp vals fp'
  assume "fp \<noteq> [] \<and> read_values pf fp rec_n = Inr (vals, fp')"
  then show "read_frames pf rec_n its fp dat =
          (case slice_frame its vals 0 dat of
             Inl e \<Rightarrow> Some (Inl e)
           | Inr dat' \<Rightarrow> read_frames pf rec_n its fp' dat')"
    using read_frames_frame by blast
next
  fix fp
  assume "0 < rec_n"
  then show "\<exists>r. read_frames pf rec_n its fp dat = Some r"
    by (rule read_frames_terminates)
qed

theorem C1_frames_until_eof_witness:
  "read_values sample_float [''7 8\<newline>''] 3 = Inl EOFError
   \<and> read_frames sample_float 3 [(''TIME'', 0), (''R'', 2)] [''7 8\<newline>'']
         [(''TIME'', [Scalar 1, Scalar 4]), (''R'', [Vector [2, 3], Vector [5, 6]])]
       = Some (Inr [(''TIME'', [Scalar 1, Scalar 4]), (''R'', [Vector [2, 3], Vector [5, 6]])])"
proof -
  have "map (line_values sample_float) [''7 8\<newline>''] = map Inr [[7, 8]]"
    by code_simp
  then have "map (line_values sample_float) [''7 8\<newline>''] = map Inr [[7, 8]]
      \<and> int (length (concat [[7, 8 :: real]])) < 3"
    by simp
  from C1_frames_until_eof [THEN conjunct2, THEN conjunct1, rule_format, OF this]
  show ?thesis .
qed

text \<open>
  C1 as the specification states it (a stream that ends inside a frame fails with an
  unexpected end of file) is false: with three values per frame and the records
  \<^verbatim>\<open>1 2 3\<close>, \<^verbatim>\<open>4 5 6\<close> followed by the two values \<^verbatim>\<open>7 8\<close>, both readers return the two
  complete frames.
\<close>

theorem C1_mid_frame_eof_counterexample:
  "read_classic_fort10 sample_int sample_float
     ''1\<newline>A\<newline>0\<newline>5\<newline>3\<newline>TIME    R       R\<newline>0 2 2\<newline>1 2 3\<newline>4 5\<newline>6\<newline>7 8\<newline>''
     = Some (Inr [(''TIME'', Array1 [1, 4]), (''R'', Array2 [[2, 3], [5, 6]])])
   \<and> read_fort10_dynamic sample_int sample_float
     ''1\<newline>A\<newline>0\<newline>5\<newline>3\<newline>TIME    R       R\<newline>0 2 2\<newline>1 2 3\<newline>4 5\<newline>6\<newline>7 8\<newline>''
     = Some (Inr [(''TIME'', Array1 [1, 4]), (''R'', Array2 [[2, 3], [5, 6]])])
   \<and> read_values sample_float [''7 8\<newline>''] 3 = (Inl EOFError :: error + real list \<times> string list)"
  by code_simp

section \<open>A read without data\<close>

lemma block_line_error:
  "block_line pint pfloat st raw = Inl e \<Longrightarrow> e = ValueError BadNumber"
  by (cases st) (auto simp: block_line_def Let_def split: option.splits if_splits)

lemma block_lines_error:
  "block_lines pint pfloat st ls = Inl e \<Longrightarrow> e = ValueError BadNumber"
proof (induction ls arbitrary: st)
  case Nil
  then show ?case by simp
next
  case (Cons raw ls)
  then show ?case
    by (cases "block_line pint pfloat st raw") (auto dest: block_line_error)
qed

lemma parse_block_ascii_no_data:
  "parse_block_ascii pint pfloat stream = Inl (ValueError NoBlockData) \<longleftrightarrow>
     (\<exists>blocks cur. block_lines pint pfloat ([], None) (lines_of stream) = Inr (blocks, cur)
        \<and> flush blocks cur = [])"
proof (cases "block_lines pint pfloat ([], None) (lines_of stream)")
  case (Inl e)
  then have "e = ValueError BadNumber" by (rule block_lines_error)
  with Inl show ?thesis by (simp add: parse_block_ascii_def)
next
  case (Inr st)
  then show ?thesis by (cases st) (simp add: parse_block_ascii_def Let_def)
qed

lemma set_update_subset:
  "p \<in> set (AList.update k v d) \<Longrightarrow> p = (k, v) \<or> p \<in> set d"
  by (induction d) (auto split: if_splits)

lemma fold_update_empty:
  "\<forall>p\<in>set d. snd p = [] \<Longrightarrow>
   \<forall>p\<in>set (fold (\<lambda>(name, L) d. AList.update name [] d) its d). snd p = []"
proof (induction its arbitrary: d)
  case Nil
  then show ?case by simp
next
  case (Cons it its)
  obtain name L where it: "it = (name, L)" by (cases it)
  have "\<forall>p\<in>set (AList.update name [] d). snd p = []"
    using Cons.prems set_update_subset [of _ name "[]" d] by fastforce
  from Cons.IH [OF this] show ?case by (simp add: it)
qed

lemma init_data_empty: "\<forall>p\<in>set (init_data its). snd p = []"
  unfolding init_data_def by (rule fold_update_empty) simp

lemma convert_all_empty:
  "\<forall>p\<in>set d. snd p = [] \<Longrightarrow> convert_all d = Inr (map (\<lambda>p. (fst p, Array1 [])) d)"
  by (induction d) (auto simp: np_array_def)

lemma read_classic_no_frames:
  assumes "header (lines_of content) = Some (Inr (meta, fp1))"
    and "read_values (pfloat :: string \<Rightarrow> 'f option) fp1 (total_values meta) = Inr (skipped, fp2)"
    and "header fp2 = Some (Inr (dyn, []))"
  shows "read_classic header pfloat content =
     Some (Inr (map (\<lambda>p. (fst p, Array1 [])) (init_data (items dyn) :: 'f series)))"
  using assms convert_all_empty [OF init_data_empty, of "items dyn", where ?'a = 'f]
  by (simp add: read_classic_def read_frames_boundary)

text \<open>
  C8, as the code has it. \<^verbatim>\<open>parse_block_ascii\<close> never returns an empty sequence: it
  raises "No block-ascii data found" exactly when the loop over the lines ends without
  an error and no block has been produced. The classic readers have no such check: when
  both headers are read and the file ends there, they return every variable of the
  dynamic section with an empty series.
\<close>

theorem C8_no_data:
  "parse_block_ascii pint (pfloat :: string \<Rightarrow> 'f option) stream \<noteq> Inr []
   \<and> (parse_block_ascii pint pfloat stream = Inl (ValueError NoBlockData) \<longleftrightarrow>
        (\<exists>blocks cur. block_lines pint pfloat ([], None) (lines_of stream) = Inr (blocks, cur)
           \<and> flush blocks cur = []))
   \<and> (\<forall>meta fp1 skipped fp2 dyn.
        read_section_header_block pint (lines_of content) = Some (Inr (meta, fp1))
        \<and> read_values pfloat fp1 (total_values meta) = Inr (skipped, fp2)
        \<and> read_section_header_block pint fp2 = Some (Inr (dyn, [])) \<longrightarrow>
        read_classic_fort10 pint pfloat content =
          Some (Inr (map (\<lambda>p. (fst p, Array1 [])) (init_data (items dyn) :: 'f series))))
   \<and> (\<forall>meta fp1 skipped fp2 dyn.
        read_section_header_plot pint (lines_of content) = Some (Inr (meta, fp1))
        \<and> read_values pfloat fp1 (total_values meta) = Inr (skipped, fp2)
        \<and> read_section_header_plot pint fp2 = Some (Inr (dyn, [])) \<longrightarrow>
        read_fort10_dynamic pint pfloat content =
          Some (Inr (map (\<lambda>p. (fst p, Array1 [])) (init_data (items dyn) :: 'f series))))"
proof (intro conjI allI impI)
  show "parse_block_ascii pint pfloat stream \<noteq> Inr []"
    by (auto simp: parse_block_ascii_def Let_def split: sum.splits)
next
  show "parse_block_ascii pint pfloat stream = Inl (ValueError NoBlockData) \<longleftrightarrow>
        (\<exists>blocks cur. block_lines pint pfloat ([], None) (lines_of stream) = Inr (blocks, cur)
           \<and> flush blocks cur = [])"
    by (rule parse_block_ascii_no_data)
next
  fix meta fp1 skipped fp2 dyn
  assume "read_section_header_block pint (lines_of content) = Some (Inr (meta, fp1))
        \<and> read_values pfloat fp1 (total_values meta) = Inr (skipped, fp2)
        \<and> read_section_header_block pint fp2 = Some (Inr (dyn, []))"
  then show "read_classic_fort10 pint pfloat content =
          Some (Inr (map (\<lambda>p. (fst p, Array1 [])) (init_data (items dyn) :: 'f series)))"
    unfolding read_classic_fort10_def by (intro read_classic_no_frames) auto
next
  fix meta fp1 skipped fp2 dyn
  assume "read_section_header_plot pint (lines_of content) = Some (Inr (meta, fp1))
        \<and> read_values pfloat fp1 (total_values meta) = Inr (skipped, fp2)
        \<and> read_section_header_plot pint fp2 = Some (Inr (dyn, []))"
  then show "read_fort10_dynamic pint pfloat content =
          Some (Inr (map (\<lambda>p. (fst p, Array1 [])) (init_data (items dyn) :: 'f series)))"
    unfolding read_fort10_dynamic_def by (intro read_classic_no_frames) auto
qed

theorem C8_no_data_witness:
  "parse_block_ascii sample_int sample_float ''step=1 time=1e-12\<newline>1 2 3\<newline>''
     = (Inl (ValueError NoBlockData) :: error + real block list)
   \<and> read_classic_fort10 sample_int sample_float
        ''1\<newline>A\<newline>0\<newline>5\<newline>3\<newline>TIME    R       R\<newline>0 2 2\<newline>''
     = Some (Inr (map (\<lambda>p. (fst p, Array1 ([] :: real list)))
          (init_data (items \<lparr>items = [(''TIME'', 0), (''R'', 2)], total_values = 3\<rparr>)
             :: real series)))"
proof -
  have b: "block_lines sample_int sample_float ([], None)
        (lines_of ''step=1 time=1e-12\<newline>1 2 3\<newline>'')
      = Inr ([], Some \<lparr>cur_step = 1, cur_time_s = 1 / 10 ^ 12, cur_rows = []\<rparr>)"
    by code_simp
  have f: "flush [] (Some \<lparr>cur_step = 1, cur_time_s = 1 / 10 ^ 12 :: real, cur_rows = []\<rparr>) = []"
    by (simp add: flush_def)
  have 1: "parse_block_ascii sample_int sample_float ''step=1 time=1e-12\<newline>1 2 3\<newline>''
     = (Inl (ValueError NoBlockData) :: error + real block list)"
    using C8_no_data [of sample_int sample_float "''step=1 time=1e-12\<newline>1 2 3\<newline>''",
        THEN conjunct2, THEN conjunct1] b f by blast
  have h1: "read_section_header_block sample_int
        (lines_of ''1\<newline>A\<newline>0\<newline>5\<newline>3\<newline>TIME    R       R\<newline>0 2 2\<newline>'')
      = Some (Inr (\<lparr>items = [(''A'', 0)], total_values = 1\<rparr>,
          [''5\<newline>'', ''3\<newline>'', ''TIME    R       R\<newline>'', ''0 2 2\<newline>'']))"
    by code_simp
  have v: "read_values sample_float
        [''5\<newline>'', ''3\<newline>'', ''TIME    R       R\<newline>'', ''0 2 2\<newline>'']
        (total_values \<lparr>items = [(''A'', 0)], total_values = 1\<rparr>)
      = Inr ([5], [''3\<newline>'', ''TIME    R       R\<newline>'', ''0 2 2\<newline>''])"
    by code_simp
  have h2: "read_section_header_block sample_int
        [''3\<newline>'', ''TIME    R       R\<newline>'', ''0 2 2\<newline>'']
      = Some (Inr (\<lparr>items = [(''TIME'', 0), (''R'', 2)], total_values = 3\<rparr>, []))"
    by code_simp
  from h1 v h2 have "read_section_header_block sample_int
        (lines_of ''1\<newline>A\<newline>0\<newline>5\<newline>3\<newline>TIME    R       R\<newline>0 2 2\<newline>'')
      = Some (Inr (\<lparr>items = [(''A'', 0)], total_values = 1\<rparr>,
          [''5\<newline>'', ''3\<newline>'', ''TIME    R       R\<newline>'', ''0 2 2\<newline>'']))
    \<and> read_values sample_float
        [''5\<newline>'', ''3\<newline>'', ''TIME    R       R\<newline>'', ''0 2 2\<newline>'']
        (total_values \<lparr>items = [(''A'', 0)], total_values = 1\<rparr>)
      = Inr ([5], [''3\<newline>'', ''TIME    R       R\<newline>'', ''0 2 2\<newline>''])
    \<and> read_section_header_block sample_int
        [''3\<newline>'', ''TIME    R       R\<newline>'', ''0 2 2\<newline>'']
      = Some (Inr (\<lparr>items = [(''TIME'', 0), (''R'', 2)], total_values = 3\<rparr>, []))"
    by blast
  from C8_no_data [THEN conjunct2, THEN conjunct2, THEN conjunct1, rule_format, OF this] 1
  show ?thesis by blast
qed

text \<open>
  C8 as the specification states it (the classic reader fails when no frame was
  produced) is false: a file that ends after the dynamic header is read without error.
\<close>

theorem C8_classic_no_frames_counterexample:
  "read_classic_fort10 sample_int sample_float
      ''1\<newline>A\<newline>0\<newline>5\<newline>3\<newline>TIME    R       R\<newline>0 2 2\<newline>''
     = Some (Inr [(''TIME'', Array1 []), (''R'', Array1 [])])
   \<and> read_fort10_dynamic sample_int sample_float
      ''1\<newline>A\<newline>0\<newline>5\<newline>3\<newline>TIME    R       R\<newline>0 2 2\<newline>''
     = Some (Inr [(''TIME'', Array1 []), (''R'', Array1 [])])"
  by code_simp

section \<open>The walk over a header\<close>

lemma py_index_at:
  "py_index (map f (pre @ x # rest)) (int (length pre)) = Inr (f x)"
  by (simp add: py_index_def Let_def nth_append)

lemma py_slice_from:
  assumes "0 \<le> L" and "a \<le> length xs"
  shows "py_slice xs (int a) (int a + L) = take (nat L) (drop a xs)"
proof -
  have a: "slice_bound (int (length xs)) (int a) = a"
    using assms(2) by (simp add: slice_bound_def)
  have b: "slice_bound (int (length xs)) (int a + L) = min (a + nat L) (length xs)"
    using assms(1) by (auto simp: slice_bound_def min_def nat_add_distrib)
  have "take (min (a + nat L) (length xs) - a) (drop a xs) = take (nat L) (drop a xs)"
    by (cases "a + nat L \<le> length xs") (simp_all add: min_def)
  then show ?thesis by (simp add: py_slice_def Let_def a b)
qed

lemma py_slice_run:
  assumes "0 \<le> L"
  shows "py_slice (map f (pre @ ps)) (int (length pre)) (int (length pre) + L)
     = map f (take (nat L) ps)"
  using py_slice_from [OF assms, of "length pre" "map f (pre @ ps)"]
  by (simp add: take_map)

lemma run_fits:
  "list_all (\<lambda>n. n = name) (map fst qs) \<and> list_all (\<lambda>v. v = L) (map snd qs)
   \<longleftrightarrow> list_all (\<lambda>p. p = (name, L)) qs"
  by (induction qs) auto

lemma run_misfits:
  "list_ex (\<lambda>n. n \<noteq> name) (map fst qs) \<or> list_ex (\<lambda>v. v \<noteq> L) (map snd qs)
   \<longleftrightarrow> \<not> list_all (\<lambda>p. p = (name, L)) qs"
  by (induction qs) auto

lemma walk_block_step:
  assumes "i < n" and "py_index names i = Inr name" and "py_index lens i = Inr L"
  shows "walk_block names lens n i acc =
     (if L = 0 then walk_block names lens n (i + 1) (acc @ [(name, 0)])
      else if i + L \<le> n \<and> list_all (\<lambda>n. n = name) (py_slice names i (i + L))
              \<and> list_all (\<lambda>v. v = L) (py_slice lens i (i + L))
        then walk_block names lens n (i + L) (acc @ [(name, L)])
      else Some (Inr (acc, False)))"
  by (subst walk_block.simps) (simp add: assms)

lemma walk_block_end: "\<not> i < n \<Longrightarrow> walk_block names lens n i acc = Some (Inr (acc, True))"
  by (subst walk_block.simps) simp

lemma walk_block_refines:
  "\<forall>p\<in>set ps. 0 \<le> snd p \<Longrightarrow>
   \<exists>a. walk_block (map fst (pre @ ps)) (map snd (pre @ ps)) (int (length (pre @ ps)))
          (int (length pre)) acc
        = Some (Inr (case spec_walk ps of Some ds \<Rightarrow> (acc @ ds, True) | None \<Rightarrow> (a, False)))"
proof (induction ps arbitrary: pre acc rule: spec_walk.induct)
  case 1
  show ?case by (simp add: walk_block_end)
next
  case (2 name L rest)
  let ?ps = "(name, L) # rest"
  let ?names = "map fst (pre @ ?ps)" and ?lens = "map snd (pre @ ?ps)"
  let ?n = "int (length (pre @ ?ps))" and ?i = "int (length pre)"
  have lt: "?i < ?n" by simp
  have nm: "py_index ?names ?i = Inr name" and ln: "py_index ?lens ?i = Inr L"
    using py_index_at [of fst pre "(name, L)" rest] py_index_at [of snd pre "(name, L)" rest]
    by simp_all
  note step = walk_block_step [OF lt nm ln, of acc]
  have L0: "0 \<le> L" using "2.prems" by simp
  show ?case
  proof (cases "L = 0")
    case True
    have nn: "\<forall>p\<in>set rest. 0 \<le> snd p" using "2.prems" by simp
    from "2.IH"(1) [OF True nn, of "pre @ [(name, 0)]" "acc @ [(name, 0)]"]
    obtain a where a: "walk_block ?names ?lens ?n (?i + 1) (acc @ [(name, 0)])
        = Some (Inr (case spec_walk rest of Some ds \<Rightarrow> ((acc @ [(name, 0)]) @ ds, True)
                     | None \<Rightarrow> (a, False)))"
      using True by (auto simp: add.commute)
    have "walk_block ?names ?lens ?n ?i acc = walk_block ?names ?lens ?n (?i + 1) (acc @ [(name, 0)])"
      using step True by simp
    with a True show ?thesis
      by (intro exI [of _ a]) (simp split: option.splits)
  next
    case False
    with L0 have Lpos: "0 < L" by simp
    have sn: "py_slice ?names ?i (?i + L) = map fst (take (nat L) ?ps)"
      and sl: "py_slice ?lens ?i (?i + L) = map snd (take (nat L) ?ps)"
      using py_slice_run [OF L0, of fst pre ?ps] py_slice_run [OF L0, of snd pre ?ps]
      by simp_all
    have bound: "?i + L \<le> ?n \<longleftrightarrow> nat L \<le> length ?ps" using L0 by auto
    let ?fits = "nat L \<le> length ?ps \<and> list_all (\<lambda>p. p = (name, L)) (take (nat L) ?ps)"
    have cond: "(?i + L \<le> ?n \<and> list_all (\<lambda>n. n = name) (py_slice ?names ?i (?i + L))
          \<and> list_all (\<lambda>v. v = L) (py_slice ?lens ?i (?i + L))) \<longleftrightarrow> ?fits"
      unfolding sn sl bound using run_fits [of name "take (nat L) ?ps" L] by blast
    have step': "walk_block ?names ?lens ?n ?i acc =
        (if ?fits then walk_block ?names ?lens ?n (?i + L) (acc @ [(name, L)])
         else Some (Inr (acc, False)))"
      unfolding step using \<open>L \<noteq> 0\<close> by (simp only: cond if_False)
    show ?thesis
    proof (cases ?fits)
      case True
      let ?pre' = "pre @ take (nat L) ?ps" and ?rest' = "drop (nat L) ?ps"
      have nn: "\<forall>p\<in>set ?rest'. 0 \<le> snd p"
        using "2.prems" by (meson in_set_dropD)
      have c: "0 < L \<and> nat L \<le> length ?ps \<and> list_all (\<lambda>p. p = (name, L)) (take (nat L) ?ps)"
        using True Lpos by simp
      have e: "?pre' @ ?rest' = pre @ ?ps" by simp
      have "length (take (nat L) ?ps) = nat L"
        using True by (simp only: length_take min.absorb2)
      then have l: "int (length ?pre') = ?i + L"
        using L0 by (simp only: length_append of_nat_add int_nat_eq if_True)
      from "2.IH"(2) [OF False c nn, of ?pre' "acc @ [(name, L)]"]
      obtain a where a: "walk_block ?names ?lens ?n (?i + L) (acc @ [(name, L)])
          = Some (Inr (case spec_walk ?rest' of Some ds \<Rightarrow> ((acc @ [(name, L)]) @ ds, True)
                       | None \<Rightarrow> (a, False)))"
        unfolding e l by blast
      have "walk_block ?names ?lens ?n ?i acc
          = walk_block ?names ?lens ?n (?i + L) (acc @ [(name, L)])"
        unfolding step' using True by (simp only: simp_thms if_True if_False)
      moreover have "spec_walk ?ps = map_option ((#) (name, L)) (spec_walk ?rest')"
        using False c by (simp del: take_Cons' drop_Cons')
      ultimately show ?thesis using a
        by (intro exI [of _ a]) (simp split: option.splits del: spec_walk.simps)
    next
      case False
      have "walk_block ?names ?lens ?n ?i acc = Some (Inr (acc, False))"
        unfolding step' using False by (simp only: simp_thms if_True if_False)
      moreover have "spec_walk ?ps = None" using False \<open>L \<noteq> 0\<close> by auto
      ultimately show ?thesis by (intro exI [of _ acc]) simp
    qed
  qed
qed

lemma walk_plot_step:
  assumes "i < n" and "py_index names i = Inr name" and "py_index lens i = Inr L"
  shows "walk_plot names lens n i acc =
     (if L = 0 then walk_plot names lens n (i + 1) (acc @ [(name, 0)])
      else if i + L > n then Some (Inl (ValueError Malformed))
      else if list_ex (\<lambda>n. n \<noteq> name) (py_slice names i (i + L))
              \<or> list_ex (\<lambda>v. v \<noteq> L) (py_slice lens i (i + L))
        then Some (Inl (ValueError Malformed))
      else walk_plot names lens n (i + L) (acc @ [(name, L)]))"
  by (subst walk_plot.simps) (simp add: assms)

lemma walk_plot_end: "\<not> i < n \<Longrightarrow> walk_plot names lens n i acc = Some (Inr acc)"
  by (subst walk_plot.simps) simp

lemma walk_plot_refines:
  "\<forall>p\<in>set ps. 0 \<le> snd p \<Longrightarrow>
   walk_plot (map fst (pre @ ps)) (map snd (pre @ ps)) (int (length (pre @ ps)))
          (int (length pre)) acc
        = Some (case spec_walk ps of Some ds \<Rightarrow> Inr (acc @ ds)
                | None \<Rightarrow> Inl (ValueError Malformed))"
proof (induction ps arbitrary: pre acc rule: spec_walk.induct)
  case 1
  show ?case by (simp add: walk_plot_end)
next
  case (2 name L rest)
  let ?ps = "(name, L) # rest"
  let ?names = "map fst (pre @ ?ps)" and ?lens = "map snd (pre @ ?ps)"
  let ?n = "int (length (pre @ ?ps))" and ?i = "int (length pre)"
  have lt: "?i < ?n" by simp
  have nm: "py_index ?names ?i = Inr name" and ln: "py_index ?lens ?i = Inr L"
    using py_index_at [of fst pre "(name, L)" rest] py_index_at [of snd pre "(name, L)" rest]
    by simp_all
  note step = walk_plot_step [OF lt nm ln, of acc]
  have L0: "0 \<le> L" using "2.prems" by simp
  show ?case
  proof (cases "L = 0")
    case True
    have nn: "\<forall>p\<in>set rest. 0 \<le> snd p" using "2.prems" by simp
    from "2.IH"(1) [OF True nn, of "pre @ [(name, 0)]" "acc @ [(name, 0)]"]
    have a: "walk_plot ?names ?lens ?n (?i + 1) (acc @ [(name, 0)])
        = Some (case spec_walk rest of Some ds \<Rightarrow> Inr ((acc @ [(name, 0)]) @ ds)
                | None \<Rightarrow> Inl (ValueError Malformed))"
      using True by (auto simp: add.commute)
    have "walk_plot ?names ?lens ?n ?i acc = walk_plot ?names ?lens ?n (?i + 1) (acc @ [(name, 0)])"
      using step True by simp
    with a True show ?thesis
      by (simp split: option.splits)
  next
    case False
    with L0 have Lpos: "0 < L" by simp
    have sn: "py_slice ?names ?i (?i + L) = map fst (take (nat L) ?ps)"
      and sl: "py_slice ?lens ?i (?i + L) = map snd (take (nat L) ?ps)"
      using py_slice_run [OF L0, of fst pre ?ps] py_slice_run [OF L0, of snd pre ?ps]
      by simp_all
    have bound: "?i + L > ?n \<longleftrightarrow> \<not> nat L \<le> length ?ps" using L0 by auto
    let ?fits = "nat L \<le> length ?ps \<and> list_all (\<lambda>p. p = (name, L)) (take (nat L) ?ps)"
    have misfit: "(list_ex (\<lambda>n. n \<noteq> name) (py_slice ?names ?i (?i + L))
          \<or> list_ex (\<lambda>v. v \<noteq> L) (py_slice ?lens ?i (?i + L)))
        \<longleftrightarrow> \<not> list_all (\<lambda>p. p = (name, L)) (take (nat L) ?ps)"
      unfolding sn sl by (rule run_misfits)
    have step': "walk_plot ?names ?lens ?n ?i acc =
        (if ?fits then walk_plot ?names ?lens ?n (?i + L) (acc @ [(name, L)])
         else Some (Inl (ValueError Malformed)))"
    proof (cases "nat L \<le> length ?ps")
      case False
      then have "?i + L > ?n" using bound by blast
      then show ?thesis
        unfolding step using \<open>L \<noteq> 0\<close> False by (simp only: simp_thms if_True if_False)
    next
      case True
      then have nb: "\<not> ?i + L > ?n" using bound by blast
      show ?thesis
      proof (cases "list_all (\<lambda>p. p = (name, L)) (take (nat L) ?ps)")
        case True
        then have "\<not> (list_ex (\<lambda>n. n \<noteq> name) (py_slice ?names ?i (?i + L))
          \<or> list_ex (\<lambda>v. v \<noteq> L) (py_slice ?lens ?i (?i + L)))"
          using misfit by blast
        then show ?thesis
          unfolding step using \<open>L \<noteq> 0\<close> nb True \<open>nat L \<le> length ?ps\<close>
          by (simp only: simp_thms if_True if_False)
      next
        case False
        then have "list_ex (\<lambda>n. n \<noteq> name) (py_slice ?names ?i (?i + L))
          \<or> list_ex (\<lambda>v. v \<noteq> L) (py_slice ?lens ?i (?i + L))"
          using misfit by blast
        then show ?thesis
          unfolding step using \<open>L \<noteq> 0\<close> nb False \<open>nat L \<le> length ?ps\<close>
          by (simp only: simp_thms if_True if_False)
      qed
    qed
    show ?thesis
    proof (cases ?fits)
      case True
      let ?pre' = "pre @ take (nat L) ?ps" and ?rest' = "drop (nat L) ?ps"
      have nn: "\<forall>p\<in>set ?rest'. 0 \<le> snd p"
        using "2.prems" by (meson in_set_dropD)
      have c: "0 < L \<and> nat L \<le> length ?ps \<and> list_all (\<lambda>p. p = (name, L)) (take (nat L) ?ps)"
        using True Lpos by simp
      have e: "?pre' @ ?rest' = pre @ ?ps" by simp
      have "length (take (nat L) ?ps) = nat L"
        using True by (simp only: length_take min.absorb2)
      then have l: "int (length ?pre') = ?i + L"
        using L0 by (simp only: length_append of_nat_add int_nat_eq if_True)
      from "2.IH"(2) [OF False c nn, of ?pre' "acc @ [(name, L)]"]
      have a: "walk_plot ?names ?lens ?n (?i + L) (acc @ [(name, L)])
          = Some (case spec_walk ?rest' of Some ds \<Rightarrow> Inr ((acc @ [(name, L)]) @ ds)
                  | None \<Rightarrow> Inl (ValueError Malformed))"
        unfolding e l by blast
      have "walk_plot ?names ?lens ?n ?i acc
          = walk_plot ?names ?lens ?n (?i + L) (acc @ [(name, L)])"
        unfolding step' using True by (simp only: simp_thms if_True if_False)
      moreover have "spec_walk ?ps = map_option ((#) (name, L)) (spec_walk ?rest')"
        using False c by (simp del: take_Cons' drop_Cons')
      ultimately show ?thesis using a
        by (simp split: option.splits del: spec_walk.simps)
    next
      case False
      have "walk_plot ?names ?lens ?n ?i acc = Some (Inl (ValueError Malformed))"
        unfolding step' using False by (simp only: simp_thms if_True if_False)
      moreover have "spec_walk ?ps = None" using False \<open>L \<noteq> 0\<close> by auto
      ultimately show ?thesis by simp
    qed
  qed
qed

lemma spec_walk_nonneg: "spec_walk ps = Some ds \<Longrightarrow> \<forall>p\<in>set ps. 0 \<le> snd p"
proof (induction ps arbitrary: ds rule: spec_walk.induct)
  case 1
  then show ?case by simp
next
  case (2 name L rest)
  let ?ps = "(name, L) # rest"
  show ?case
  proof (cases "L = 0")
    case True
    with "2.prems" obtain ds' where "spec_walk rest = Some ds'" by auto
    from "2.IH"(1) [OF True this] True show ?thesis by simp
  next
    case False
    with "2.prems" have c: "0 < L \<and> nat L \<le> length ?ps
        \<and> list_all (\<lambda>p. p = (name, L)) (take (nat L) ?ps)"
      by (auto split: if_splits)
    with "2.prems" False obtain ds' where d: "spec_walk (drop (nat L) ?ps) = Some ds'"
      by (auto split: if_splits)
    have "\<forall>p\<in>set (drop (nat L) ?ps). 0 \<le> snd p"
      using "2.IH"(2) [OF False c d] .
    moreover have "\<forall>p\<in>set (take (nat L) ?ps). 0 \<le> snd p"
      using c by (auto simp: list_all_iff simp del: take_Cons')
    moreover have "set ?ps = set (take (nat L) ?ps) \<union> set (drop (nat L) ?ps)"
      by (metis append_take_drop_id set_append)
    ultimately show ?thesis by blast
  qed
qed

lemma spec_walk_sum: "spec_walk ps = Some ds \<Longrightarrow> sum_counts ds = int (length ps)"
proof (induction ps arbitrary: ds rule: spec_walk.induct)
  case 1
  then show ?case by (simp add: sum_counts_def)
next
  case (2 name L rest)
  let ?ps = "(name, L) # rest"
  show ?case
  proof (cases "L = 0")
    case True
    with "2.prems" obtain ds' where d: "spec_walk rest = Some ds'" "ds = (name, 0) # ds'"
      by auto
    from "2.IH"(1) [OF True d(1)] d(2) show ?thesis by (simp add: sum_counts_def)
  next
    case False
    with "2.prems" have c: "0 < L \<and> nat L \<le> length ?ps
        \<and> list_all (\<lambda>p. p = (name, L)) (take (nat L) ?ps)"
      by (auto split: if_splits)
    with "2.prems" False obtain ds' where d: "spec_walk (drop (nat L) ?ps) = Some ds'"
      "ds = (name, L) # ds'"
      by (auto split: if_splits)
    have "sum_counts ds' = int (length (drop (nat L) ?ps))"
      using "2.IH"(2) [OF False c d(1)] .
    also have "\<dots> = int (length ?ps) - L" using c by (simp only: length_drop) linarith
    finally show ?thesis using d(2) False by (simp add: sum_counts_def)
  qed
qed

lemma nonneg_lens:
  assumes "length names = length lens" and "\<forall>p\<in>set (zip names lens). 0 \<le> snd p"
  shows "\<forall>L\<in>set lens. 0 \<le> (L :: int)"
proof
  fix L assume "L \<in> set lens"
  then obtain i where i: "i < length lens" "lens ! i = L"
    by (auto simp: in_set_conv_nth)
  then have "(names ! i, lens ! i) \<in> set (zip names lens)"
    using assms(1) by (auto simp: set_zip)
  with assms(2) i(2) show "0 \<le> L" by fastforce
qed

lemma header_items_refine:
  assumes "length names = length lens" and "\<forall>L\<in>set lens. 0 \<le> L"
  shows "header_items_block names lens (int (length names)) =
      Some (Inr (case spec_walk (zip names lens) of Some ds \<Rightarrow> ds | None \<Rightarrow> zip names lens))"
    and "header_items_plot names lens (int (length names)) =
      Some (case spec_walk (zip names lens) of Some ds \<Rightarrow> Inr ds
            | None \<Rightarrow> Inl (ValueError Malformed))"
proof -
  let ?ps = "zip names lens"
  have f: "map fst ?ps = names" and s: "map snd ?ps = lens" and l: "length ?ps = length names"
    using assms(1) by simp_all
  have nn: "\<forall>p\<in>set ?ps. 0 \<le> snd p"
    using assms(2) by (auto dest: set_zip_rightD)
  from walk_block_refines [OF nn, of "[]" "[]"]
  obtain a where "walk_block names lens (int (length names)) 0 [] =
      Some (Inr (case spec_walk ?ps of Some ds \<Rightarrow> ([] @ ds, True) | None \<Rightarrow> (a, False)))"
    using f s l by auto
  then show "header_items_block names lens (int (length names)) =
      Some (Inr (case spec_walk ?ps of Some ds \<Rightarrow> ds | None \<Rightarrow> ?ps))"
    by (simp add: header_items_block_def split: option.splits)
  from walk_plot_refines [OF nn, of "[]" "[]"]
  show "header_items_plot names lens (int (length names)) =
      Some (case spec_walk ?ps of Some ds \<Rightarrow> Inr ds | None \<Rightarrow> Inl (ValueError Malformed))"
    using f s l by (simp add: header_items_plot_def split: option.splits)
qed

text \<open>
  C2, as the code has it. For a header whose names and lengths are equally many and whose
  lengths are not negative, the items computed by density_block.py are those of the walk
  of the specification when every run fits, and otherwise one item for every pair of a
  name and a length, unchanged; the decoder does not fail. The decoder of
  density_plot.py computes the same items when every run fits, and otherwise fails with
  \<^verbatim>\<open>ValueError\<close>.
\<close>

theorem C2_header_compression:
  assumes "length names = length lens" and "\<forall>L\<in>set lens. 0 \<le> L"
  shows "header_items_block names lens (int (length names)) =
      Some (Inr (case spec_walk (zip names lens) of Some ds \<Rightarrow> ds | None \<Rightarrow> zip names lens))
    \<and> header_items_plot names lens (int (length names)) =
      Some (case spec_walk (zip names lens) of Some ds \<Rightarrow> Inr ds
            | None \<Rightarrow> Inl (ValueError Malformed))"
  using header_items_refine [OF assms] by (intro conjI)

lemma read_exact_names_loop_length:
  "read_exact_names_loop n acc fp = Inr (names, fp') \<Longrightarrow> 0 \<le> n \<Longrightarrow> length names = nat n"
proof (induction fp arbitrary: acc)
  case Nil
  then show ?case by (auto simp: py_slice_0_nonneg split: if_splits)
next
  case (Cons line fp)
  then show ?case by (auto simp: py_slice_0_nonneg split: if_splits)
qed

lemma read_exact_ints_loop_length:
  "read_exact_ints_loop line_ints n acc fp = Inr (lens, fp') \<Longrightarrow> 0 \<le> n \<Longrightarrow>
   length lens = nat n"
proof (induction fp arbitrary: acc)
  case Nil
  then show ?case by (auto simp: py_slice_0_nonneg split: if_splits)
next
  case (Cons line fp)
  then show ?case by (auto simp: py_slice_0_nonneg split: if_splits sum.splits)
qed

lemma read_section_header_consistent:
  assumes "py_split (py_strip line) = tok # toks" and "pint tok = Some n"
    and "read_exact_names fp1 n = Inr (names, fp2)" and "int (length names) = n"
    and "read_ints fp2 n = Inr (lens, fp3)" and "length lens = nat n"
    and "header_items names lens n = Some (Inr ds)" and "sum_counts ds = n"
  shows "read_section_header read_ints header_items pint (line # fp1) =
     Some (Inr (\<lparr>items = ds, total_values = n\<rparr>, fp3))"
  using assms by (auto simp: read_section_header_def)

text \<open>
  C6: when the first line of a section declares the count \<open>n\<close>, the \<open>n\<close> names and the
  \<open>n\<close> lengths are read, and the pairs form a consistent run-length encoding (the walk
  of the specification succeeds with the items \<open>ds\<close>), then both header decoders return
  the directory \<open>ds\<close> with \<^verbatim>\<open>total_values\<close> equal to \<open>n\<close>, and the counts of \<open>ds\<close>, one
  for a scalar and \<open>L\<close> for an array of length \<open>L\<close>, sum to \<open>n\<close>.
\<close>

theorem C6_counts_sum_to_declared:
  assumes "py_split (py_strip line) = tok # toks" and "pint tok = Some n"
    and "read_exact_names after_count n = Inr (names, after_names)" and "int (length names) = n"
    and "spec_walk (zip names lens) = Some ds"
  shows "(read_exact_ints_block pint after_names n = Inr (lens, after_lens) \<longrightarrow>
            read_section_header_block pint (line # after_count) =
              Some (Inr (\<lparr>items = ds, total_values = n\<rparr>, after_lens)))
    \<and> (read_exact_ints_plot pint after_names n = Inr (lens, after_lens) \<longrightarrow>
            read_section_header_plot pint (line # after_count) =
              Some (Inr (\<lparr>items = ds, total_values = n\<rparr>, after_lens)))
    \<and> (length names = length lens \<longrightarrow> sum_counts ds = n)"
proof -
  have n0: "0 \<le> n" using assms(4) by auto
  have nn: "\<forall>L\<in>set lens. 0 \<le> L" if "length names = length lens"
    using nonneg_lens [OF that spec_walk_nonneg [OF assms(5)]] .
  have sum: "sum_counts ds = n" if "length names = length lens"
    using spec_walk_sum [OF assms(5)] that assms(4) by simp
  have hb: "header_items_block names lens n = Some (Inr ds)"
    and hp: "header_items_plot names lens n = Some (Inr ds)" if "length names = length lens"
    using header_items_refine [OF that nn [OF that]] assms(4,5) by simp_all
  have "read_section_header_block pint (line # after_count) =
      Some (Inr (\<lparr>items = ds, total_values = n\<rparr>, after_lens))"
    if r: "read_exact_ints_block pint after_names n = Inr (lens, after_lens)"
  proof -
    have l: "length lens = nat n"
      using r n0 read_exact_ints_loop_length by (auto simp: read_exact_ints_block_def)
    then have e: "length names = length lens" using assms(4) by auto
    show ?thesis
      unfolding read_section_header_block_def
      using assms(1,2,3,4) r l hb [OF e] sum [OF e] by (rule read_section_header_consistent)
  qed
  moreover have "read_section_header_plot pint (line # after_count) =
      Some (Inr (\<lparr>items = ds, total_values = n\<rparr>, after_lens))"
    if r: "read_exact_ints_plot pint after_names n = Inr (lens, after_lens)"
  proof -
    have l: "length lens = nat n"
      using r n0 read_exact_ints_loop_length by (auto simp: read_exact_ints_plot_def)
    then have e: "length names = length lens" using assms(4) by auto
    show ?thesis
      unfolding read_section_header_plot_def
      using assms(1,2,3,4) r l hp [OF e] sum [OF e] by (rule read_section_header_consistent)
  qed
  ultimately show ?thesis using sum by blast
qed

theorem C6_counts_sum_to_declared_witness:
  "read_section_header_block sample_int
      [''5 items\<newline>'', ''TIME    R       R\<newline>'', ''XC      XC\<newline>'', ''0 2 2,\<newline>'', ''2 2\<newline>'', ''1.5\<newline>'']
     = Some (Inr (\<lparr>items = [(''TIME'', 0), (''R'', 2), (''XC'', 2)], total_values = 5\<rparr>,
                  [''1.5\<newline>'']))
   \<and> sum_counts [(''TIME'', 0), (''R'', 2), (''XC'', 2)] = 5"
proof -
  let ?fp1 = "[''TIME    R       R\<newline>'', ''XC      XC\<newline>'', ''0 2 2,\<newline>'', ''2 2\<newline>'', ''1.5\<newline>'']"
  let ?fp2 = "[''0 2 2,\<newline>'', ''2 2\<newline>'', ''1.5\<newline>'']"
  let ?names = "[''TIME'', ''R'', ''R'', ''XC'', ''XC'']"
  let ?lens = "[0, 2, 2, 2, 2 :: int]"
  have t: "py_split (py_strip ''5 items\<newline>'') = ''5'' # [''items'']" by code_simp
  have i: "sample_int ''5'' = Some 5" by code_simp
  have nm: "read_exact_names ?fp1 5 = Inr (?names, ?fp2)" by code_simp
  have ln: "int (length ?names) = 5" by simp
  have sw: "spec_walk (zip ?names ?lens) = Some [(''TIME'', 0), (''R'', 2), (''XC'', 2)]"
    by code_simp
  have ri: "read_exact_ints_block sample_int ?fp2 5 = Inr (?lens, [''1.5\<newline>''])"
    by code_simp
  have e: "length ?names = length ?lens" by simp
  note th = C6_counts_sum_to_declared [where pint = sample_int and after_lens = "[''1.5\<newline>'']",
      OF t i nm ln sw]
  from th [THEN conjunct1, rule_format, OF ri]
    th [THEN conjunct2, THEN conjunct2, rule_format, OF e]
  show ?thesis by (intro conjI)
qed

theorem C2_header_compression_witness:
  "header_items_block [''TIME'', ''R'', ''R'', ''XC'', ''XC''] [0, 2, 2, 2, 2] 5
     = Some (Inr [(''TIME'', 0), (''R'', 2), (''XC'', 2)])
   \<and> header_items_plot [''TIME'', ''R'', ''R'', ''XC'', ''XC''] [0, 2, 2, 2, 2] 5
     = Some (Inr [(''TIME'', 0), (''R'', 2), (''XC'', 2)])
   \<and> header_items_block [''R'', ''R'', ''XC'', ''TI''] [2, 2, 2, 2] 4
     = Some (Inr [(''R'', 2), (''R'', 2), (''XC'', 2), (''TI'', 2)])
   \<and> header_items_plot [''R'', ''R'', ''XC'', ''TI''] [2, 2, 2, 2] 4
     = Some (Inl (ValueError Malformed))"
proof -
  have a: "length [''TIME'', ''R'', ''R'', ''XC'', ''XC''] = length [0, 2, 2, 2, 2 :: int]"
    and b: "\<forall>L\<in>set [0, 2, 2, 2, 2 :: int]. 0 \<le> L"
    and c: "length [''R'', ''R'', ''XC'', ''TI''] = length [2, 2, 2, 2 :: int]"
    and d: "\<forall>L\<in>set [2, 2, 2, 2 :: int]. 0 \<le> L"
    by simp_all
  have s1: "spec_walk (zip [''TIME'', ''R'', ''R'', ''XC'', ''XC''] [0, 2, 2, 2, 2])
      = Some [(''TIME'', 0), (''R'', 2), (''XC'', 2)]"
    by code_simp
  have s2: "spec_walk (zip [''R'', ''R'', ''XC'', ''TI''] [2, 2, 2, 2]) = None"
    by code_simp
  have z: "zip [''R'', ''R'', ''XC'', ''TI''] [2, 2, 2, 2 :: int]
      = [(''R'', 2), (''R'', 2), (''XC'', 2), (''TI'', 2)]"
    by simp
  from C2_header_compression [OF a b] C2_header_compression [OF c d]
  show ?thesis unfolding s1 s2 z by simp
qed

text \<open>
  C2 as the specification states it (on an inconsistent run the decoder does not fail)
  is false for the decoder of density_plot.py: on a header whose run of \<^verbatim>\<open>XC\<close> is too
  short it raises, while the decoder of density_block.py falls back to the pairs.
\<close>

theorem C2_plot_decoder_fails_counterexample:
  "header_items_plot [''R'', ''R'', ''XC'', ''TI''] [2, 2, 2, 2] 4
     = Some (Inl (ValueError Malformed))
   \<and> read_section_header_plot sample_int
        (lines_of ''4\<newline>R       R       XC      TI\<newline>2 2 2 2\<newline>'')
     = Some (Inl (ValueError Malformed))
   \<and> read_section_header_block sample_int
        (lines_of ''4\<newline>R       R       XC      TI\<newline>2 2 2 2\<newline>'')
     = Some (Inr (\<lparr>items = [(''R'', 2), (''R'', 2), (''XC'', 2), (''TI'', 2)],
                    total_values = 8\<rparr>, []))"
  by code_simp

text \<open>
  The two hypotheses above cannot be dropped: a negative length sends the walk of
  density_block.py backwards, here into an \<^verbatim>\<open>IndexError\<close>, and a negative count reads
  no pair at all.
\<close>

lemma negative_length_examples:
  "header_items_block [''A''] [- 1] 1 = Some (Inl IndexError)
   \<and> read_section_header_block sample_int (lines_of ''-1\<newline>'')
       = Some (Inr (\<lparr>items = [], total_values = 0\<rparr>, []))"
  by code_simp

end
